theory Spec2Isabelle
  imports Complex_Main "HOL-Library.Char_ord" "HOL-Library.List_Lexorder"
begin

section \<open>Strings\<close>

text \<open>
  A JavaScript string is a sequence of UTF-16 code units. The development covers the
  strings whose code units lie in U+0000..U+00FF: a code unit is a \<^typ>\<open>char\<close>
  (eight bits, read as its Latin-1 code point) and a string is a \<^typ>\<open>string\<close>.
  On this range the built-ins used by the scripts are as follows.
  \<^item> \<^verbatim>\<open>\d\<close> matches the ten ASCII digits.
  \<^item> \<^verbatim>\<open>\s\<close> and \<^verbatim>\<open>trim\<close> share one set of characters: TAB, LF, VT, FF, CR,
    SPACE and NO-BREAK SPACE (U+00A0).
  \<^item> \<^verbatim>\<open>.\<close> matches every character but the line terminators LF and CR.
  \<^item> \<^verbatim>\<open>toLowerCase\<close> adds 32 to A..Z and to U+00C0..U+00DE (U+00D7 excepted).
  \<^item> Under the \<^verbatim>\<open>i\<close> flag a character matches an ASCII letter of the pattern
    exactly when its lower case is that letter.
\<close>

definition is_digit :: "char \<Rightarrow> bool" where
  "is_digit c = (c \<in> set ''0123456789'')"

definition is_space :: "char \<Rightarrow> bool" where
  "is_space c = (c \<in> set [CHR 0x09, CHR 0x0A, CHR 0x0B, CHR 0x0C, CHR 0x0D, CHR 0x20, CHR 0xA0])"

definition is_line_terminator :: "char \<Rightarrow> bool" where
  "is_line_terminator c = (c \<in> set [CHR 0x0A, CHR 0x0D])"

definition toLowerCase_char :: "char \<Rightarrow> char" where
  "toLowerCase_char c =
     (let n = (of_char c :: nat)
      in if (65 \<le> n \<and> n \<le> 90) \<or> (192 \<le> n \<and> n \<le> 222 \<and> n \<noteq> 215)
         then char_of (n + 32) else c)"

definition toLowerCase :: "string \<Rightarrow> string" where
  "toLowerCase s = map toLowerCase_char s"

text \<open>\<^verbatim>\<open>s.trim()\<close>\<close>

definition trim :: "string \<Rightarrow> string" where
  "trim s = rev (dropWhile is_space (rev (dropWhile is_space s)))"

text \<open>
  \<open>ci_prefix w s\<close>: the literal \<open>w\<close> (written in lower case) matches at the start of
  \<open>s\<close> under the \<^verbatim>\<open>i\<close> flag.
\<close>

definition ci_prefix :: "string \<Rightarrow> string \<Rightarrow> bool" where
  "ci_prefix w s = (length w \<le> length s \<and> map toLowerCase_char (take (length w) s) = w)"

section \<open>The name normalizer of the fix script\<close>

text \<open>\<^verbatim>\<open>.replace(/[|]/g, '')\<close>\<close>

definition remove_pipes :: "string \<Rightarrow> string" where
  "remove_pipes s = filter (\<lambda>c. c \<noteq> CHR ''|'') s"

text \<open>\<^verbatim>\<open>.replace(/\s+/g, ' ')\<close>: every maximal run of white space becomes one space.\<close>

function collapse_ws :: "string \<Rightarrow> string" where
  "collapse_ws [] = []"
| "collapse_ws (c # cs) =
     (if is_space c then CHR '' '' # collapse_ws (dropWhile is_space cs)
      else c # collapse_ws cs)"
  by pat_completeness auto
termination
  by (relation "measure length") (auto simp: length_dropWhile_le less_Suc_eq_le)

text \<open>
  \<^verbatim>\<open>.replace(/\d+k$/i, '')\<close>: the match is the last character, a \<^verbatim>\<open>k\<close> in either
  case, together with the whole run of digits before it, which must not be empty.
\<close>

definition strip_k :: "string \<Rightarrow> string" where
  "strip_k s =
     (case rev s of
        k # r \<Rightarrow>
          if toLowerCase_char k = CHR ''k'' \<and> takeWhile is_digit r \<noteq> []
          then rev (dropWhile is_digit r) else s
      | [] \<Rightarrow> s)"

text \<open>\<^verbatim>\<open>.replace(/\d+km$/i, '')\<close>\<close>

definition strip_km :: "string \<Rightarrow> string" where
  "strip_km s =
     (case rev s of
        m # k # r \<Rightarrow>
          if toLowerCase_char m = CHR ''m'' \<and> toLowerCase_char k = CHR ''k''
             \<and> takeWhile is_digit r \<noteq> []
          then rev (dropWhile is_digit r) else s
      | _ \<Rightarrow> s)"

text \<open>
  \<^verbatim>\<open>.replace(/edition\s*\d+/i, '')\<close> and \<^verbatim>\<open>.replace(/season\s*\d+/i, '')\<close>: without
  the \<^verbatim>\<open>g\<close> flag only the leftmost match is removed. A match starts where the word
  stands, followed by any white space and at least one digit; both runs are taken whole.
\<close>

definition token_at :: "string \<Rightarrow> string \<Rightarrow> bool" where
  "token_at w s =
     (ci_prefix w s \<and> takeWhile is_digit (dropWhile is_space (drop (length w) s)) \<noteq> [])"

definition token_rest :: "string \<Rightarrow> string \<Rightarrow> string" where
  "token_rest w s = dropWhile is_digit (dropWhile is_space (drop (length w) s))"

fun strip_token :: "string \<Rightarrow> string \<Rightarrow> string" where
  "strip_token w [] = []"
| "strip_token w (c # cs) =
     (if token_at w (c # cs) then token_rest w (c # cs) else c # strip_token w cs)"

text \<open>
  \<^verbatim>\<open>.replace(/\d{4}/g, '2025')\<close>: scanning from the left, four digits in a row are
  replaced and the scan goes on behind them.
\<close>

fun normalize_years :: "string \<Rightarrow> string" where
  "normalize_years (a # b # c # d # s) =
     (if is_digit a \<and> is_digit b \<and> is_digit c \<and> is_digit d
      then ''2025'' @ normalize_years s
      else a # normalize_years (b # c # d # s))"
| "normalize_years s = s"

text \<open>
  \<^verbatim>\<open>.replace(/powered by.*$/i, '')\<close> and \<^verbatim>\<open>.replace(/sponsored by.*$/i, '')\<close>: the
  match starts at the leftmost place where the words stand and no line terminator
  follows them, and runs to the end of the string.
\<close>

fun strip_from :: "string \<Rightarrow> string \<Rightarrow> string" where
  "strip_from w [] = []"
| "strip_from w (c # cs) =
     (if ci_prefix w (c # cs) \<and> \<not> list_ex is_line_terminator (drop (length w) (c # cs))
      then [] else c # strip_from w cs)"

text \<open>\<^verbatim>\<open>normalizeEventName\<close> of the fix script.\<close>

definition normalizeEventName :: "string \<Rightarrow> string" where
  "normalizeEventName name =
     (if name = [] then []
      else let s = toLowerCase name;
               s = remove_pipes s;
               s = collapse_ws s;
               s = strip_k s;
               s = strip_km s;
               s = strip_token ''edition'' s;
               s = strip_token ''season'' s;
               s = normalize_years s;
               s = strip_from ''powered by'' s;
               s = strip_from ''sponsored by'' s
           in trim s)"








section \<open>The similarity scorer\<close>

text \<open>
  \<^verbatim>\<open>xs[i] = v\<close> on a JavaScript array: an index below the length overwrites, the
  index equal to the length appends, and a larger index also leaves holes, which read
  as an unspecified value.
\<close>

definition array_set :: "'a list \<Rightarrow> nat \<Rightarrow> 'a \<Rightarrow> 'a list" where
  "array_set xs i v =
     (if i < length xs then xs[i := v]
      else xs @ map (\<lambda>_. undefined) [length xs..<i] @ [v])"

text \<open>
  The value stored at \<^verbatim>\<open>matrix[i][j]\<close> by the inner loop of
  \<^verbatim>\<open>levenshteinDistance\<close>, for \<open>1 \<le> i \<le> length str2\<close> and \<open>1 \<le> j \<le> length str1\<close>.
\<close>

definition matrix_cell :: "string \<Rightarrow> string \<Rightarrow> nat list list \<Rightarrow> nat \<Rightarrow> nat \<Rightarrow> nat" where
  "matrix_cell str1 str2 matrix i j =
     (if str2 ! (i - 1) = str1 ! (j - 1) then matrix ! (i - 1) ! (j - 1)
      else min (matrix ! (i - 1) ! (j - 1) + 1)
             (min (matrix ! i ! (j - 1) + 1) (matrix ! (i - 1) ! j + 1)))"

text \<open>\<^verbatim>\<open>levenshteinDistance\<close>: the three loops, each a fold over its index range.\<close>

definition levenshteinDistance :: "string \<Rightarrow> string \<Rightarrow> nat" where
  "levenshteinDistance str1 str2 =
     (let matrix = fold (\<lambda>i m. array_set m i [i]) [0..<Suc (length str2)] [];
          matrix = fold (\<lambda>j m. array_set m 0 (array_set (m ! 0) j j))
                     [0..<Suc (length str1)] matrix;
          matrix = fold (\<lambda>i m.
                       fold (\<lambda>j m. array_set m i (array_set (m ! i) j (matrix_cell str1 str2 m i j)))
                         [1..<Suc (length str1)] m)
                     [1..<Suc (length str2)] matrix
      in matrix ! length str2 ! length str1)"

text \<open>
  \<^verbatim>\<open>calculateSimilarity\<close>. The quotient of two string lengths is a \<^typ>\<open>rat\<close>: the
  floating-point quotient of the script is its nearest double, and the comparisons of
  the scripts with \<^verbatim>\<open>0.7\<close> come out as the exact comparisons with \<open>7/10\<close> for
  strings of any length JavaScript can hold.
\<close>

definition calculateSimilarity :: "string \<Rightarrow> string \<Rightarrow> rat" where
  "calculateSimilarity str1 str2 =
     (if str1 = [] \<or> str2 = [] then 0
      else let longer = (if length str1 > length str2 then str1 else str2);
               shorter = (if length str1 > length str2 then str2 else str1)
           in if length longer = 0 then 1
              else let editDistance = levenshteinDistance longer shorter
                   in (of_nat (length longer) - of_nat editDistance) / of_nat (length longer))"

subsection \<open>The edit distance of the specification\<close>

text \<open>
  The classic distance: \<open>edits a b n\<close> holds when \<open>n\<close> single-character insertions,
  deletions and substitutions, applied from left to right, turn \<open>a\<close> into \<open>b\<close>, and
  \<open>edit_distance\<close> is the textbook recurrence for the least such \<open>n\<close>.
\<close>

inductive edits :: "'a list \<Rightarrow> 'a list \<Rightarrow> nat \<Rightarrow> bool" where
  finish: "edits [] [] 0"
| keep: "edits xs ys n \<Longrightarrow> edits (x # xs) (x # ys) n"
| substitute: "edits xs ys n \<Longrightarrow> edits (x # xs) (y # ys) (Suc n)"
| delete: "edits xs ys n \<Longrightarrow> edits (x # xs) ys (Suc n)"
| insert: "edits xs ys n \<Longrightarrow> edits xs (y # ys) (Suc n)"

fun edit_distance :: "'a list \<Rightarrow> 'a list \<Rightarrow> nat" where
  "edit_distance [] ys = length ys"
| "edit_distance xs [] = length xs"
| "edit_distance (x # xs) (y # ys) =
     min (min (edit_distance xs (y # ys) + 1) (edit_distance (x # xs) ys + 1))
         (edit_distance xs ys + (if x = y then 0 else 1))"

text \<open>
  The formula of the specification, \<open>(maxLen - d) / maxLen\<close>. For two empty strings
  it is \<open>0 / 0\<close>, which is not a number: \<open>None\<close>.
\<close>

definition similarity_formula :: "string \<Rightarrow> string \<Rightarrow> rat option" where
  "similarity_formula a b =
     (let maxLen = max (length a) (length b); d = edit_distance a b
      in if maxLen = 0 then None
         else Some ((of_nat maxLen - of_nat d) / of_nat maxLen))"

text \<open>
  The state of the matrix between the loop iterations: \<open>dp_row\<close> is a finished row,
  \<open>rows_filled r\<close> says that the rows below \<open>r\<close> are finished and the others hold
  their first cell only, and \<open>row_partial i t\<close> that row \<open>i\<close> is filled up to
  column \<open>t\<close>.
\<close>

definition dp_row :: "string \<Rightarrow> string \<Rightarrow> nat \<Rightarrow> nat list" where
  "dp_row str1 str2 i =
     map (\<lambda>j. edit_distance (take i str2) (take j str1)) [0..<Suc (length str1)]"

definition rows_filled :: "string \<Rightarrow> string \<Rightarrow> nat \<Rightarrow> nat list list \<Rightarrow> bool" where
  "rows_filled str1 str2 r m =
     (length m = Suc (length str2) \<and> (\<forall>q<r. m ! q = dp_row str1 str2 q)
      \<and> (\<forall>q. r \<le> q \<and> q \<le> length str2 \<longrightarrow> m ! q = [q]))"

definition row_partial :: "string \<Rightarrow> string \<Rightarrow> nat \<Rightarrow> nat \<Rightarrow> nat list list \<Rightarrow> bool" where
  "row_partial str1 str2 i t m =
     (length m = Suc (length str2) \<and> (\<forall>q<i. m ! q = dp_row str1 str2 q)
      \<and> m ! i = map (\<lambda>j. edit_distance (take i str2) (take j str1)) [0..<Suc t]
      \<and> (\<forall>q. i < q \<and> q \<le> length str2 \<longrightarrow> m ! q = [q]))"

section \<open>The fix script: raw event index\<close>

text \<open>\<^verbatim>\<open>s.includes(w)\<close>\<close>

fun str_includes :: "string \<Rightarrow> string \<Rightarrow> bool" where
  "str_includes [] w = (w = [])"
| "str_includes (c # cs) w = (take (length w) (c # cs) = w \<or> str_includes cs w)"

text \<open>\<^verbatim>\<open>s.split('\n')\<close>\<close>

fun split_lines :: "string \<Rightarrow> string list" where
  "split_lines [] = [[]]"
| "split_lines (c # cs) =
     (if c = CHR 0x0A then [] # split_lines cs
      else (case split_lines cs of l # ls \<Rightarrow> (c # l) # ls | [] \<Rightarrow> [[c]]))"

text \<open>\<^verbatim>\<open>file.match(/^(\d+)\.txt$/)\<close>, giving the captured digits.\<close>

definition match_txt :: "string \<Rightarrow> string option" where
  "match_txt file =
     (let d = takeWhile is_digit file
      in if d \<noteq> [] \<and> dropWhile is_digit file = ''.txt'' then Some d else None)"

text \<open>
  \<^verbatim>\<open>getAllRawEventFiles\<close>, on the directory listing; the model keeps the
  \<^verbatim>\<open>eventId\<close> and the \<^verbatim>\<open>fileName\<close> of each entry.
\<close>

definition getAllRawEventFiles :: "string list \<Rightarrow> (string \<times> string) list" where
  "getAllRawEventFiles files =
     List.map_filter (\<lambda>file. map_option (\<lambda>d. (d, file)) (match_txt file)) files"

text \<open>The tests of \<^verbatim>\<open>extractEventNameFromRaw\<close> on one trimmed line.\<close>

definition skipped_line :: "string \<Rightarrow> bool" where
  "skipped_line line =
     (str_includes line ''Log in'' \<or> str_includes line ''Forgotten account''
      \<or> str_includes line ''Events'' \<or> str_includes line ''Home''
      \<or> str_includes line ''Categories'' \<or> line = []
      \<or> (line \<noteq> [] \<and> list_all is_digit line)
      \<or> (str_includes line ''at '' \<and> str_includes line ''+06'')
      \<or> length line < 5)"

definition title_candidate :: "string \<Rightarrow> bool" where
  "title_candidate line =
     (length line > 10 \<and> length line < 200
      \<and> \<not> str_includes line ''facebook.com''
      \<and> \<not> str_includes line ''Privacy''
      \<and> \<not> str_includes line ''Terms''
      \<and> \<not> str_includes line ''Advertising''
      \<and> \<not> str_includes line ''people responded''
      \<and> \<not> str_includes line ''Event by''
      \<and> \<not> str_includes line ''Public''
      \<and> \<not> str_includes line ''Anyone on or off Facebook''
      \<and> \<not> str_includes line ''Invite''
      \<and> \<not> str_includes line ''Details''
      \<and> \<not> str_includes line ''Duration'')"

definition location_like :: "string \<Rightarrow> bool" where
  "location_like nextLine =
     (str_includes nextLine '','' \<or> str_includes nextLine ''Online event''
      \<or> str_includes nextLine ''Division'' \<or> str_includes nextLine ''Bangladesh''
      \<or> nextLine = ''Invite'' \<or> nextLine = ''Details'')"

text \<open>The loop over the lines: the argument is \<^verbatim>\<open>lines.slice(i)\<close>.\<close>

fun scan_lines :: "string list \<Rightarrow> string option" where
  "scan_lines [] = None"
| "scan_lines (l # ls) =
     (let line = trim l
      in if skipped_line line then scan_lines ls
         else if title_candidate line \<and> list_ex location_like (map trim (take 3 ls))
         then Some line
         else scan_lines ls)"

definition extractEventNameFromRaw :: "string \<Rightarrow> string option" where
  "extractEventNameFromRaw rawContent =
     (if rawContent = [] then None
      else if str_includes rawContent ''You must log in to continue''
              \<or> str_includes rawContent ''Log in to Facebook'' then None
      else scan_lines (split_lines rawContent))"

record rawEvent =
  raw_eventId :: string
  raw_eventName :: string
  normalizedName :: string

text \<open>
  A JavaScript object with string keys is the list of its entries in the order of
  \<^verbatim>\<open>Object.entries\<close>: first the keys that are array indices (canonical decimal numerals
  up to \<open>2^32 - 2\<close>) in ascending order, then the other keys in the order of their
  creation. \<open>object_get\<close> is \<^verbatim>\<open>obj[k]\<close>, \<open>object_set\<close> is \<^verbatim>\<open>obj[k] = v\<close>.
\<close>

type_synonym 'a object = "(string \<times> 'a) list"

definition digit_value :: "char \<Rightarrow> int" where
  "digit_value c = of_char c - 48"

definition decimal :: "string \<Rightarrow> int" where
  "decimal s = foldl (\<lambda>n c. 10 * n + digit_value c) 0 s"

definition is_array_index :: "string \<Rightarrow> bool" where
  "is_array_index k =
     (k \<noteq> [] \<and> list_all is_digit k \<and> (k = ''0'' \<or> hd k \<noteq> CHR ''0'')
      \<and> decimal k \<le> 4294967294)"

definition object_get :: "'a object \<Rightarrow> string \<Rightarrow> 'a option" where
  "object_get obj k = map_of obj k"

fun object_insert :: "'a object \<Rightarrow> string \<Rightarrow> 'a \<Rightarrow> 'a object" where
  "object_insert [] k v = [(k, v)]"
| "object_insert ((k', v') # obj) k v =
     (if is_array_index k \<and> (\<not> is_array_index k' \<or> decimal k < decimal k')
      then (k, v) # (k', v') # obj
      else (k', v') # object_insert obj k v)"

definition object_set :: "'a object \<Rightarrow> string \<Rightarrow> 'a \<Rightarrow> 'a object" where
  "object_set obj k v =
     (if k \<in> fst ` set obj then map (\<lambda>(k', v'). if k' = k then (k', v) else (k', v')) obj
      else object_insert obj k v)"

text \<open>
  \<^verbatim>\<open>buildRawEventIndex\<close>. Its input is the directory listing with, for each file, the
  text read from it, or \<open>None\<close> when reading it throws.
\<close>

definition buildRawEventIndex :: "(string \<times> string option) list \<Rightarrow> rawEvent object" where
  "buildRawEventIndex files =
     fold (\<lambda>(file, content) index.
             case match_txt file of
               None \<Rightarrow> index
             | Some eventId \<Rightarrow>
                 (case content of
                    None \<Rightarrow> index
                  | Some raw \<Rightarrow>
                      (case extractEventNameFromRaw raw of
                         None \<Rightarrow> index
                       | Some eventName \<Rightarrow>
                           if eventName = [] then index
                           else object_set index eventId
                                  \<lparr>raw_eventId = eventId, raw_eventName = eventName,
                                   normalizedName = normalizeEventName eventName\<rparr>)))
          files []"

section \<open>The fix script: reconciling the catalog\<close>

record bestMatch =
  match_eventId :: string
  match_eventName :: string
  match_similarity :: rat

text \<open>
  The loop of \<^verbatim>\<open>findCorrectEventId\<close> over \<^verbatim>\<open>Object.entries(rawEventIndex)\<close>, with its
  two variables \<^verbatim>\<open>bestMatch\<close> and \<^verbatim>\<open>bestSimilarity\<close>.
\<close>

fun best_match_loop ::
  "string \<Rightarrow> rawEvent object \<Rightarrow> bestMatch option \<Rightarrow> rat \<Rightarrow> bestMatch option" where
  "best_match_loop normalizedTarget [] bestMatch bestSimilarity = bestMatch"
| "best_match_loop normalizedTarget ((eventId, rawEvent) # entries) bestMatch bestSimilarity =
     (let similarity = calculateSimilarity normalizedTarget (normalizedName rawEvent)
      in if similarity > bestSimilarity \<and> similarity > 7 / 10
         then best_match_loop normalizedTarget entries
                (Some \<lparr>match_eventId = eventId, match_eventName = raw_eventName rawEvent,
                       match_similarity = similarity\<rparr>) similarity
         else best_match_loop normalizedTarget entries bestMatch bestSimilarity)"

definition findCorrectEventId :: "string \<Rightarrow> rawEvent object \<Rightarrow> bestMatch option" where
  "findCorrectEventId name rawEventIndex =
     best_match_loop (normalizeEventName name) rawEventIndex None 0"

text \<open>
  A catalog record, as the specification has it: a name and an optional link, both
  strings.
\<close>

record event =
  name :: string
  fbLink :: "string option"

text \<open>
  \<^verbatim>\<open>s.match(/events\/(\d+)/)?.[1]\<close>: the digits behind the leftmost \<^verbatim>\<open>events/\<close>
  that has a digit behind it.
\<close>

fun match_events_id :: "string \<Rightarrow> string option" where
  "match_events_id [] = None"
| "match_events_id (c # cs) =
     (if take 7 (c # cs) = ''events/'' \<and> takeWhile is_digit (drop 7 (c # cs)) \<noteq> []
      then Some (takeWhile is_digit (drop 7 (c # cs)))
      else match_events_id cs)"

text \<open>
  \<^verbatim>\<open>event.fbLink ? event.fbLink.match(/events\/(\d+)/)?.[1] : null\<close>, the reference
  id of a record.
\<close>

definition currentEventId :: "event \<Rightarrow> string option" where
  "currentEventId event =
     (case fbLink event of
        None \<Rightarrow> None
      | Some link \<Rightarrow> if link = [] then None else match_events_id link)"

record fix_entry =
  eventIndex :: nat
  fix_eventName :: string
  oldEventId :: string
  oldEventName :: string
  newEventId :: string
  newEventName :: string
  similarity :: rat
  oldLink :: string
  newLink :: string

text \<open>
  What one pass of the loop of \<^verbatim>\<open>fixFacebookLinks\<close> does with a record; each case but
  \<open>LinkCorrect\<close> prints its own message on the console.
\<close>

datatype outcome = NoLink | RawNotFound | LinkCorrect | Fixed fix_entry | NoGoodMatch

definition fix_event :: "rawEvent object \<Rightarrow> nat \<Rightarrow> event \<Rightarrow> event \<times> outcome" where
  "fix_event rawEventIndex i event =
     (case fbLink event of
        None \<Rightarrow> (event, NoLink)
      | Some link \<Rightarrow>
          (case (if link = [] then None else match_events_id link) of
             None \<Rightarrow> (event, NoLink)
           | Some current \<Rightarrow>
               (case object_get rawEventIndex current of
                  None \<Rightarrow> (event, RawNotFound)
                | Some currentRawEvent \<Rightarrow>
                    let currentSimilarity =
                          calculateSimilarity (normalizeEventName (name event))
                            (normalizedName currentRawEvent)
                    in if currentSimilarity \<ge> 7 / 10 then (event, LinkCorrect)
                       else (case findCorrectEventId (name event) rawEventIndex of
                               None \<Rightarrow> (event, NoGoodMatch)
                             | Some correctMatch \<Rightarrow>
                                 if match_eventId correctMatch \<noteq> current
                                 then let link' = ''https://www.facebook.com/events/''
                                                    @ match_eventId correctMatch
                                      in (event\<lparr>fbLink := Some link'\<rparr>,
                                          Fixed \<lparr>eventIndex = i + 1,
                                                 fix_eventName = name event,
                                                 oldEventId = current,
                                                 oldEventName = raw_eventName currentRawEvent,
                                                 newEventId = match_eventId correctMatch,
                                                 newEventName = match_eventName correctMatch,
                                                 similarity = match_similarity correctMatch,
                                                 oldLink = link,
                                                 newLink = link'\<rparr>)
                                 else (event, NoGoodMatch)))))"

text \<open>The variables of \<^verbatim>\<open>fixFacebookLinks\<close> and one pass of its loop, at index \<open>i\<close>.\<close>

record fix_state =
  st_events :: "event list"
  st_fixedCount :: nat
  st_fixes :: "fix_entry list"
  st_console :: "outcome list"

definition fix_step :: "rawEvent object \<Rightarrow> nat \<Rightarrow> fix_state \<Rightarrow> fix_state" where
  "fix_step rawEventIndex i st =
     (case fix_event rawEventIndex i (st_events st ! i) of
        (event, Fixed f) \<Rightarrow>
          st\<lparr>st_events := (st_events st)[i := event],
             st_fixedCount := st_fixedCount st + 1,
             st_fixes := st_fixes st @ [f],
             st_console := st_console st @ [Fixed f]\<rparr>
      | (event, out) \<Rightarrow> st\<lparr>st_console := st_console st @ [out]\<rparr>)"

text \<open>
  \<^verbatim>\<open>fixFacebookLinks\<close>, given the parsed catalog and the raw event index. The result
  holds the returned \<^verbatim>\<open>fixedCount\<close> and \<^verbatim>\<open>fixes\<close> (here \<open>result_fixes\<close>), the catalog file and the report
  file as the run leaves them (the report is written only with a correction), and what
  each record printed.
\<close>

record fix_result =
  fixedCount :: nat
  result_fixes :: "fix_entry list"
  events_json :: "event list"
  report_json :: "fix_entry list option"
  console :: "outcome list"

definition fixFacebookLinks :: "event list \<Rightarrow> rawEvent object \<Rightarrow> fix_result" where
  "fixFacebookLinks events rawEventIndex =
     (let st = fold (fix_step rawEventIndex) [0..<length events]
                 \<lparr>st_events = events, st_fixedCount = 0, st_fixes = [], st_console = []\<rparr>
      in \<lparr>fixedCount = st_fixedCount st,
          result_fixes = st_fixes st,
          events_json = (if st_fixedCount st > 0 then st_events st else events),
          report_json = (if st_fixedCount st > 0 then Some (st_fixes st) else None),
          console = st_console st\<rparr>)"

text \<open>
  What \<^verbatim>\<open>buildRawEventIndex\<close> guarantees of its result: the keys are distinct and each
  is a non-empty string of digits.
\<close>

definition index_ok :: "'a object \<Rightarrow> bool" where
  "index_ok obj =
     (distinct (map fst obj) \<and> (\<forall>k\<in>set (map fst obj). k \<noteq> [] \<and> list_all is_digit k))"

text \<open>The fix entry of an outcome, if it has one.\<close>

fun fix_of :: "outcome \<Rightarrow> fix_entry option" where
  "fix_of (Fixed f) = Some f"
| "fix_of out = None"

subsection \<open>Example data\<close>

text \<open>
  A small index whose second and third entries carry the same normalized name, and
  catalogs of one record each.
\<close>

definition example_index :: "rawEvent object" where
  "example_index =
     [(''1'', \<lparr>raw_eventId = ''1'', raw_eventName = ''Dhaka Fun'', normalizedName = ''dhaka fun''\<rparr>),
      (''2'', \<lparr>raw_eventId = ''2'', raw_eventName = ''Sylhet Run'', normalizedName = ''sylhet run''\<rparr>),
      (''3'', \<lparr>raw_eventId = ''3'', raw_eventName = ''Sylhet run'', normalizedName = ''sylhet run''\<rparr>)]"

definition mislinked_catalog :: "event list" where
  "mislinked_catalog =
     [\<lparr>name = ''Sylhet Run'', fbLink = Some ''https://www.facebook.com/events/1''\<rparr>]"

definition near_index :: "rawEvent object" where
  "near_index =
     [(''1'', \<lparr>raw_eventId = ''1'', raw_eventName = ''Dhaka Fun'', normalizedName = ''dhaka fun''\<rparr>),
      (''2'', \<lparr>raw_eventId = ''2'', raw_eventName = ''Dhaka Run'', normalizedName = ''dhaka run''\<rparr>)]"

definition near_catalog :: "event list" where
  "near_catalog =
     [\<lparr>name = ''Dhaka Run'', fbLink = Some ''https://www.facebook.com/events/1''\<rparr>]"

definition lonely_index :: "rawEvent object" where
  "lonely_index =
     [(''1'', \<lparr>raw_eventId = ''1'', raw_eventName = ''Dhaka Fun'', normalizedName = ''dhaka fun''\<rparr>)]"

definition year_index :: "rawEvent object" where
  "year_index =
     [(''1'', \<lparr>raw_eventId = ''1'', raw_eventName = ''Dhaka Run 2025'',
              normalizedName = normalizeEventName ''Dhaka Run 2025''\<rparr>)]"

definition year_catalog :: "event list" where
  "year_catalog =
     [\<lparr>name = ''Dhaka RUN 2024'', fbLink = Some ''https://www.facebook.com/events/1''\<rparr>]"

definition sponsor_index :: "rawEvent object" where
  "sponsor_index =
     [(''7'', \<lparr>raw_eventId = ''7'', raw_eventName = ''Sponsored by Acme Corp'',
              normalizedName = normalizeEventName ''Sponsored by Acme Corp''\<rparr>)]"

definition sponsor_catalog :: "event list" where
  "sponsor_catalog =
     [\<lparr>name = ''Powered by Acme'', fbLink = Some ''https://www.facebook.com/events/7''\<rparr>]"

text \<open>
  The directory listing, with the content of each file, from which \<open>sponsor_index\<close> is
  built, and a catalog whose record has no link.
\<close>

definition sponsor_files :: "(string \<times> string option) list" where
  "sponsor_files =
     [(''7.txt'', Some (''Sponsored by Acme Corp'' @ [CHR 0x0A] @ ''Dhaka, Bangladesh''))]"

definition unlinked_catalog :: "event list" where
  "unlinked_catalog = [\<lparr>name = ''Dhaka Run'', fbLink = None\<rparr>]"

section \<open>The consistency checker\<close>

text \<open>
  The values that \<^verbatim>\<open>JSON.parse\<close> produces, over strings of code units of type
  \<open>'c\<close>. An object is the list of its properties, each key once.
\<close>

datatype 'c json =
    JNull
  | JBool bool
  | JNum rat
  | JStr "'c list"
  | JArr "'c json list"
  | JObj "('c list \<times> 'c json) list"

text \<open>Whether a value counts as true in a condition.\<close>

fun truthy :: "'c json \<Rightarrow> bool" where
  "truthy JNull = False"
| "truthy (JBool b) = b"
| "truthy (JNum n) = (n \<noteq> 0)"
| "truthy (JStr s) = (s \<noteq> [])"
| "truthy (JArr xs) = True"
| "truthy (JObj ps) = True"

text \<open>
  \<^verbatim>\<open>evt[key]\<close> for one of the link keys, none of which an array has: \<open>None\<close> is
  \<^verbatim>\<open>undefined\<close>.
\<close>

fun get_property :: "'c json \<Rightarrow> 'c list \<Rightarrow> 'c json option" where
  "get_property (JObj ps) key = map_of ps key"
| "get_property v key = None"

text \<open>\<^verbatim>\<open>a || b || ... || null\<close>: the first operand that counts as true, else null.\<close>

fun first_truthy :: "'c json option list \<Rightarrow> 'c json" where
  "first_truthy [] = JNull"
| "first_truthy (Some v # xs) = (if truthy v then v else first_truthy xs)"
| "first_truthy (None # xs) = first_truthy xs"

text \<open>
  \<^verbatim>\<open>fbLink.match(/facebook\.com\/events\/(\d+)/i)\<close>, giving the captured digits of
  the leftmost match.
\<close>

fun match_facebook_id :: "string \<Rightarrow> string option" where
  "match_facebook_id [] = None"
| "match_facebook_id (c # cs) =
     (if ci_prefix ''facebook.com/events/'' (c # cs)
         \<and> takeWhile is_digit (drop 20 (c # cs)) \<noteq> []
      then Some (takeWhile is_digit (drop 20 (c # cs)))
      else match_facebook_id cs)"

text \<open>The id that the callback of \<^verbatim>\<open>events.forEach\<close> extracts from one record, if any.\<close>

definition event_id :: "char json \<Rightarrow> string option" where
  "event_id evt =
     (if \<not> truthy evt \<or> \<not> (case evt of JObj ps \<Rightarrow> True | JArr xs \<Rightarrow> True | _ \<Rightarrow> False)
      then None
      else case first_truthy (map (get_property evt)
                  [''fbLink'', ''fblink'', ''fb_link'', ''fb-link'', ''fb'']) of
             JStr link \<Rightarrow> match_facebook_id link
           | _ \<Rightarrow> None)"

text \<open>
  A \<^verbatim>\<open>Set\<close> and a \<^verbatim>\<open>Map\<close> iterate in the order of insertion: they are lists without
  repeated elements and keys.
\<close>

definition set_add :: "'a list \<Rightarrow> 'a \<Rightarrow> 'a list" where
  "set_add s x = (if x \<in> set s then s else s @ [x])"

definition new_Set :: "'a list \<Rightarrow> 'a list" where
  "new_Set xs = fold (\<lambda>x s. set_add s x) xs []"

definition map_set :: "('k \<times> 'v) list \<Rightarrow> 'k \<Rightarrow> 'v \<Rightarrow> ('k \<times> 'v) list" where
  "map_set m k v =
     (if k \<in> fst ` set m then map (\<lambda>(k', v'). if k' = k then (k', v) else (k', v')) m
      else m @ [(k, v)])"

text \<open>\<^verbatim>\<open>readRawEventIds\<close>, on the directory listing.\<close>

definition readRawEventIds :: "string list \<Rightarrow> string list" where
  "readRawEventIds files =
     fold (\<lambda>f ids. case match_txt f of Some d \<Rightarrow> set_add ids d | None \<Rightarrow> ids) files []"

text \<open>\<^verbatim>\<open>extractIdsFromEvents\<close>, giving \<^verbatim>\<open>allIds\<close> and \<^verbatim>\<open>occurrences\<close>.\<close>

definition extractIdsFromEvents :: "char json list \<Rightarrow> string list \<times> (string \<times> nat) list" where
  "extractIdsFromEvents events =
     fold (\<lambda>evt (allIds, occurrences).
             case event_id evt of
               None \<Rightarrow> (allIds, occurrences)
             | Some eid \<Rightarrow>
                 (allIds @ [eid],
                  map_set occurrences eid
                    ((case map_of occurrences eid of
                        None \<Rightarrow> 0
                      | Some n \<Rightarrow> if n = 0 then 0 else n) + 1)))
          events ([], [])"

text \<open>
  The result of \<^verbatim>\<open>analyze\<close>, the fields of its \<^verbatim>\<open>summary\<close> first. The default order
  of \<^verbatim>\<open>sort\<close> compares strings code unit by code unit, which is the order of
  \<^typ>\<open>string\<close>; on strings of digits \<^verbatim>\<open>localeCompare\<close> orders the same way.
\<close>

record analysis =
  totalRawFiles :: nat
  totalEventEntriesScanned :: nat
  uniqueEventIdsInJson :: nat
  missingInEventsJsonCount :: nat
  missingRawFilesCount :: nat
  duplicateIdCount :: nat
  mismatch :: bool
  missingInEventsJson :: "string list"
  missingRawFiles :: "string list"
  duplicates :: "(string \<times> nat) list"

definition analyze :: "string list \<Rightarrow> char json list \<Rightarrow> analysis" where
  "analyze files events =
     (let rawIds = readRawEventIds files;
          (eventIds, occurrences) = extractIdsFromEvents events;
          eventIdSet = new_Set eventIds;
          missingIn = sort (filter (\<lambda>eid. eid \<notin> set eventIdSet) rawIds);
          missingRaw = sort (filter (\<lambda>eid. eid \<notin> set rawIds) eventIdSet);
          dups = sort_key fst (filter (\<lambda>(eid, n). n > 1) occurrences)
      in \<lparr>totalRawFiles = length rawIds,
          totalEventEntriesScanned = length eventIds,
          uniqueEventIdsInJson = length eventIdSet,
          missingInEventsJsonCount = length missingIn,
          missingRawFilesCount = length missingRaw,
          duplicateIdCount = length dups,
          mismatch = (length missingIn > 0 \<or> length missingRaw > 0 \<or> length dups > 0),
          missingInEventsJson = missingIn,
          missingRawFiles = missingRaw,
          duplicates = dups\<rparr>)"

text \<open>A catalog record with a link to the event of the given id, and nothing else.\<close>

definition linked_record :: "string \<Rightarrow> char json" where
  "linked_record eid = JObj [(''fbLink'', JStr (''https://www.facebook.com/events/'' @ eid))]"

text \<open>
  The state of the loop of \<^verbatim>\<open>extractIdsFromEvents\<close>: the map of occurrences holds,
  for each id pushed so far, the number of times it was pushed.
\<close>

definition counted :: "string list \<times> (string \<times> nat) list \<Rightarrow> bool" where
  "counted p = (distinct (map fst (snd p))
     \<and> (\<forall>k. map_of (snd p) k = (if k \<in> set (fst p) then Some (count_list (fst p) k) else None)))"

section \<open>Reading the catalog\<close>

text \<open>
  The text of the catalog file is a sequence of UTF-16 code units, each an \<^typ>\<open>int\<close>
  from 0 to 65535; no case mapping is applied to it, so no code unit is left out.
  \<open>text_of\<close> writes a Latin-1 string as such a sequence.
\<close>

type_synonym text16 = "int list"

definition text_of :: "string \<Rightarrow> text16" where
  "text_of s = map of_char s"

definition BOM :: int where
  "BOM = 0xFEFF"

text \<open>The white space of \<^verbatim>\<open>trim\<close> and of \<^verbatim>\<open>\s\<close>: WhiteSpace and LineTerminator.\<close>

definition is_space16 :: "int \<Rightarrow> bool" where
  "is_space16 c =
     (c \<in> set [0x09, 0x0A, 0x0B, 0x0C, 0x0D, 0x20, 0xA0, 0x1680, 0x2028, 0x2029, 0x202F,
                0x205F, 0x3000, 0xFEFF]
      \<or> (0x2000 \<le> c \<and> c \<le> 0x200A))"

definition trim16 :: "text16 \<Rightarrow> text16" where
  "trim16 s = rev (dropWhile is_space16 (rev (dropWhile is_space16 s)))"

subsection \<open>JSON.parse\<close>

text \<open>
  The grammar of \<^verbatim>\<open>JSON.parse\<close>. Its white space is TAB, LF, CR and SPACE only. A
  number is kept as the exact rational it denotes.
\<close>

definition is_json_ws :: "int \<Rightarrow> bool" where
  "is_json_ws c = (c \<in> set [0x09, 0x0A, 0x0D, 0x20])"

definition skip_ws :: "text16 \<Rightarrow> text16" where
  "skip_ws s = dropWhile is_json_ws s"

definition is_digit16 :: "int \<Rightarrow> bool" where
  "is_digit16 c = (48 \<le> c \<and> c \<le> 57)"

definition hex_value :: "int \<Rightarrow> int option" where
  "hex_value c =
     (if 48 \<le> c \<and> c \<le> 57 then Some (c - 48)
      else if 65 \<le> c \<and> c \<le> 70 then Some (c - 55)
      else if 97 \<le> c \<and> c \<le> 102 then Some (c - 87)
      else None)"

text \<open>The code unit of \<^verbatim>\<open>\uXXXX\<close>, from its four hexadecimal digits.\<close>

definition hex4 :: "text16 \<Rightarrow> int option" where
  "hex4 s =
     (case map hex_value s of
        [Some a, Some b, Some c, Some d] \<Rightarrow> Some (((a * 16 + b) * 16 + c) * 16 + d)
      | _ \<Rightarrow> None)"

text \<open>The character of a one-letter escape: \<^verbatim>\<open>\" \\ \/ \b \f \n \r \t\<close>.\<close>

definition simple_escape :: "int \<Rightarrow> int option" where
  "simple_escape e =
     (if e = 34 then Some 34 else if e = 92 then Some 92 else if e = 47 then Some 47
      else if e = 98 then Some 8 else if e = 102 then Some 12 else if e = 110 then Some 10
      else if e = 114 then Some 13 else if e = 116 then Some 9 else None)"

text \<open>
  The rest of a string literal behind its opening quote: the characters up to the
  closing quote, and what follows it. Control characters must be escaped.
\<close>

function parse_chars :: "text16 \<Rightarrow> (text16 \<times> text16) option" where
  "parse_chars [] = None"
| "parse_chars (c # cs) =
     (if c = 34 then Some ([], cs)
      else if c = 92 then
        (case cs of
           [] \<Rightarrow> None
         | e # r \<Rightarrow>
             if e = 117 then
               (case hex4 (take 4 r) of
                  None \<Rightarrow> None
                | Some u \<Rightarrow> map_option (\<lambda>(str, rest). (u # str, rest)) (parse_chars (drop 4 r)))
             else
               (case simple_escape e of
                  None \<Rightarrow> None
                | Some u \<Rightarrow> map_option (\<lambda>(str, rest). (u # str, rest)) (parse_chars r)))
      else if c < 32 then None
      else map_option (\<lambda>(str, rest). (c # str, rest)) (parse_chars cs))"
  by pat_completeness auto
termination
  by (relation "measure length") auto

definition digits_value :: "text16 \<Rightarrow> int" where
  "digits_value ds = foldl (\<lambda>n d. 10 * n + (d - 48)) 0 ds"

text \<open>
  A number: an optional minus, the integer part (a single zero, or digits that do not
  start with zero), an optional fraction and an optional exponent. Each part gives what
  it has read and the rest of the text; a fraction or an exponent without a digit is
  an error.
\<close>

definition number_sign :: "text16 \<Rightarrow> bool \<times> text16" where
  "number_sign s = (case s of c # r \<Rightarrow> if c = 45 then (True, r) else (False, s) | [] \<Rightarrow> (False, s))"

definition number_int :: "text16 \<Rightarrow> text16 \<times> text16" where
  "number_int s =
     (case s of
        c # r \<Rightarrow> if c = 48 then ([c], r) else (takeWhile is_digit16 s, dropWhile is_digit16 s)
      | [] \<Rightarrow> ([], []))"

definition number_frac :: "text16 \<Rightarrow> (text16 \<times> text16) option" where
  "number_frac s =
     (case s of
        c # r \<Rightarrow>
          if c = 46 then
            (if takeWhile is_digit16 r = [] then None
             else Some (takeWhile is_digit16 r, dropWhile is_digit16 r))
          else Some ([], s)
      | [] \<Rightarrow> Some ([], s))"

definition number_exp_sign :: "text16 \<Rightarrow> bool \<times> text16" where
  "number_exp_sign s =
     (case s of
        d # r \<Rightarrow> if d = 45 then (True, r) else if d = 43 then (False, r) else (False, s)
      | [] \<Rightarrow> (False, s))"

definition number_exp :: "text16 \<Rightarrow> ((bool \<times> text16) \<times> text16) option" where
  "number_exp s =
     (case s of
        c # r \<Rightarrow>
          if c = 101 \<or> c = 69 then
            (let (sg, r') = number_exp_sign r
             in if takeWhile is_digit16 r' = [] then None
                else Some ((sg, takeWhile is_digit16 r'), dropWhile is_digit16 r'))
          else Some ((False, []), s)
      | [] \<Rightarrow> Some ((False, []), s))"

definition parse_number :: "text16 \<Rightarrow> (rat \<times> text16) option" where
  "parse_number s =
     (let (neg, s1) = number_sign s;
          (ipart, s2) = number_int s1
      in if ipart = [] then None
         else
           (case number_frac s2 of
              None \<Rightarrow> None
            | Some (fpart, s3) \<Rightarrow>
                (case number_exp s3 of
                   None \<Rightarrow> None
                 | Some ((eneg, epart), s4) \<Rightarrow>
                     let mantissa = (of_int (digits_value ipart) :: rat)
                                      + of_int (digits_value fpart) / 10 ^ length fpart;
                         scaled = (if eneg then mantissa / 10 ^ nat (digits_value epart)
                                   else mantissa * 10 ^ nat (digits_value epart))
                     in Some (if neg then - scaled else scaled, s4))))"

text \<open>
  \<^verbatim>\<open>obj[k] = v\<close> while an object is built: a key that is there keeps its place,
  a new one is put where \<^verbatim>\<open>Object.entries\<close> will list it.
\<close>

definition is_array_index16 :: "text16 \<Rightarrow> bool" where
  "is_array_index16 k =
     (k \<noteq> [] \<and> list_all is_digit16 k \<and> (k = [48] \<or> hd k \<noteq> 48)
      \<and> digits_value k \<le> 4294967294)"

fun object_insert16 :: "(text16 \<times> 'a) list \<Rightarrow> text16 \<Rightarrow> 'a \<Rightarrow> (text16 \<times> 'a) list" where
  "object_insert16 [] k v = [(k, v)]"
| "object_insert16 ((k', v') # obj) k v =
     (if is_array_index16 k \<and> (\<not> is_array_index16 k' \<or> digits_value k < digits_value k')
      then (k, v) # (k', v') # obj
      else (k', v') # object_insert16 obj k v)"

definition object_set16 :: "(text16 \<times> 'a) list \<Rightarrow> text16 \<Rightarrow> 'a \<Rightarrow> (text16 \<times> 'a) list" where
  "object_set16 obj k v =
     (if k \<in> fst ` set obj then map (\<lambda>(k', v'). if k' = k then (k', v) else (k', v')) obj
      else object_insert16 obj k v)"

text \<open>
  The result of a parser that counts its steps: a value with the rest of the text, a
  syntax error, or no steps left.
\<close>

datatype 'a parse = Ok 'a | SyntaxError | OutOfFuel

text \<open>
  A value, at the first character that is not white space; the elements of an array
  behind \<^verbatim>\<open>[\<close> or a comma; the members of an object behind \<^verbatim>\<open>{\<close> or a comma.
\<close>

fun parse_value :: "nat \<Rightarrow> text16 \<Rightarrow> (int json \<times> text16) parse"
  and parse_elements :: "nat \<Rightarrow> text16 \<Rightarrow> int json list \<Rightarrow> (int json \<times> text16) parse"
  and parse_members ::
    "nat \<Rightarrow> text16 \<Rightarrow> (text16 \<times> int json) list \<Rightarrow> (int json \<times> text16) parse" where
  "parse_value 0 s = OutOfFuel"
| "parse_value (Suc n) s =
     (case s of
        [] \<Rightarrow> SyntaxError
      | c # cs \<Rightarrow>
          if c = 123 then
            (case skip_ws cs of
               [] \<Rightarrow> SyntaxError
             | d # r \<Rightarrow> if d = 125 then Ok (JObj [], r) else parse_members n (d # r) [])
          else if c = 91 then
            (case skip_ws cs of
               [] \<Rightarrow> SyntaxError
             | d # r \<Rightarrow> if d = 93 then Ok (JArr [], r) else parse_elements n (d # r) [])
          else if c = 34 then
            (case parse_chars cs of
               None \<Rightarrow> SyntaxError
             | Some (str, r) \<Rightarrow> Ok (JStr str, r))
          else if take 4 s = [116, 114, 117, 101] then Ok (JBool True, drop 4 s)
          else if take 5 s = [102, 97, 108, 115, 101] then Ok (JBool False, drop 5 s)
          else if take 4 s = [110, 117, 108, 108] then Ok (JNull, drop 4 s)
          else (case parse_number s of
                  None \<Rightarrow> SyntaxError
                | Some (x, r) \<Rightarrow> Ok (JNum x, r)))"
| "parse_elements 0 s acc = OutOfFuel"
| "parse_elements (Suc n) s acc =
     (case parse_value n (skip_ws s) of
        Ok (v, r) \<Rightarrow>
          (case skip_ws r of
             [] \<Rightarrow> SyntaxError
           | d # r' \<Rightarrow>
               if d = 44 then parse_elements n r' (acc @ [v])
               else if d = 93 then Ok (JArr (acc @ [v]), r')
               else SyntaxError)
      | SyntaxError \<Rightarrow> SyntaxError
      | OutOfFuel \<Rightarrow> OutOfFuel)"
| "parse_members 0 s acc = OutOfFuel"
| "parse_members (Suc n) s acc =
     (case skip_ws s of
        [] \<Rightarrow> SyntaxError
      | q # s1 \<Rightarrow>
          if q \<noteq> 34 then SyntaxError
          else
            (case parse_chars s1 of
               None \<Rightarrow> SyntaxError
             | Some (key, s2) \<Rightarrow>
                 (case skip_ws s2 of
                    [] \<Rightarrow> SyntaxError
                  | colon # s3 \<Rightarrow>
                      if colon \<noteq> 58 then SyntaxError
                      else
                        (case parse_value n (skip_ws s3) of
                           Ok (v, r) \<Rightarrow>
                             (case skip_ws r of
                                [] \<Rightarrow> SyntaxError
                              | d # r' \<Rightarrow>
                                  if d = 44 then parse_members n r' (object_set16 acc key v)
                                  else if d = 125 then Ok (JObj (object_set16 acc key v), r')
                                  else SyntaxError)
                         | SyntaxError \<Rightarrow> SyntaxError
                         | OutOfFuel \<Rightarrow> OutOfFuel))))"

text \<open>
  \<^verbatim>\<open>JSON.parse(text)\<close>: one value between white space, and nothing else. A value,
  its elements or members take at most two steps for each character of the text, so
  the steps given here never run out (\<open>JSON_parse_steps_total\<close> below), and \<open>None\<close> is
  the SyntaxError that \<^verbatim>\<open>JSON.parse\<close> throws.
\<close>

definition JSON_parse_steps :: "text16 \<Rightarrow> int json parse" where
  "JSON_parse_steps s =
     (case parse_value (2 * length s + 2) (skip_ws s) of
        Ok (v, r) \<Rightarrow> if skip_ws r = [] then Ok v else SyntaxError
      | SyntaxError \<Rightarrow> SyntaxError
      | OutOfFuel \<Rightarrow> OutOfFuel)"

definition JSON_parse :: "text16 \<Rightarrow> int json option" where
  "JSON_parse s = (case JSON_parse_steps s of Ok v \<Rightarrow> Some v | _ \<Rightarrow> None)"

subsection \<open>parseEventsJson\<close>

text \<open>
  \<^verbatim>\<open>.replace(/,\s*([}\]])/g, '$1')\<close>: a comma, the white space behind it and a closing
  bracket or brace become that bracket or brace, wherever they stand in the text.
\<close>

function remove_trailing_commas :: "text16 \<Rightarrow> text16" where
  "remove_trailing_commas [] = []"
| "remove_trailing_commas (c # cs) =
     (if c = 44 then
        (case dropWhile is_space16 cs of
           d # r \<Rightarrow> if d = 125 \<or> d = 93 then d # remove_trailing_commas r
                    else c # remove_trailing_commas cs
         | [] \<Rightarrow> c # remove_trailing_commas cs)
      else c # remove_trailing_commas cs)"
  by pat_completeness auto
termination
proof (relation "measure length")
  fix c :: int and cs d r
  assume "dropWhile is_space16 cs = d # r"
  then have "length (d # r) \<le> length cs"
    using length_dropWhile_le [of is_space16 cs] by simp
  then show "(r, c # cs) \<in> measure length"
    by simp
qed auto

text \<open>\<^verbatim>\<open>.replace(/^\uFEFF/, '')\<close>: a byte-order mark at the start of the text is removed.\<close>

definition strip_BOM :: "text16 \<Rightarrow> text16" where
  "strip_BOM s = (case s of c # cs \<Rightarrow> if c = BOM then cs else s | [] \<Rightarrow> s)"

datatype parse_error = FileNotFound | ParseFailed | RootNotArray

text \<open>
  \<^verbatim>\<open>parseEventsJson\<close>, the same in both scripts. Its argument is the text of the file,
  or \<open>None\<close> when there is no file; each \<^verbatim>\<open>throw\<close> is an error value. \<open>wrap_object\<close>
  is the block \<^verbatim>\<open>if (!raw.startsWith('[')) { if (raw.startsWith('{')) raw = `[${raw}]` }\<close>,
  \<open>array_root\<close> the test \<^verbatim>\<open>Array.isArray(data)\<close> before the result is returned.
\<close>

definition wrap_object :: "text16 \<Rightarrow> text16" where
  "wrap_object raw =
     (if take 1 raw \<noteq> [91] then (if take 1 raw = [123] then [91] @ raw @ [93] else raw)
      else raw)"

definition array_root :: "int json \<Rightarrow> parse_error + int json list" where
  "array_root data = (case data of JArr records \<Rightarrow> Inr records | _ \<Rightarrow> Inl RootNotArray)"

definition parseEventsJson :: "text16 option \<Rightarrow> parse_error + int json list" where
  "parseEventsJson file =
     (case file of
        None \<Rightarrow> Inl FileNotFound
      | Some content \<Rightarrow>
          let raw = wrap_object (trim16 content);
              parsed = (case JSON_parse raw of
                          Some data \<Rightarrow> Some data
                        | None \<Rightarrow> JSON_parse (strip_BOM (remove_trailing_commas raw)))
          in case parsed of
               None \<Rightarrow> Inl ParseFailed
             | Some data \<Rightarrow> array_root data)"

subsection \<open>Trailing commas, read with the string literals in mind\<close>

text \<open>
  The repair as the specification words it, for comparison with \<open>remove_trailing_commas\<close>:
  a trailing comma is a comma outside every string literal that is followed, white
  space apart, by a closing bracket or brace. \<open>trailing_comma_at s\<close> says that \<open>s\<close>
  starts with a comma, white space and such a closer. \<open>drop_trailing_commas\<close> goes
  through the text with a flag that tells whether it is inside a string literal, where
  a backslash takes the next character with it, and drops the trailing commas (with
  their white space) outside the literals only. \<open>strings_clean\<close> holds when no comma
  inside a string literal is followed, white space apart, by a closing bracket or brace.
\<close>

definition trailing_comma_at :: "text16 \<Rightarrow> bool" where
  "trailing_comma_at s =
     (case s of
        [] \<Rightarrow> False
      | c # cs \<Rightarrow> c = 44 \<and> (case dropWhile is_space16 cs of
                                 [] \<Rightarrow> False
                               | d # r \<Rightarrow> d = 125 \<or> d = 93))"

function drop_trailing_commas :: "bool \<Rightarrow> text16 \<Rightarrow> text16" where
  "drop_trailing_commas in_string [] = []"
| "drop_trailing_commas True (c # cs) =
     (if c = 34 then c # drop_trailing_commas False cs
      else if c = 92 then
        (case cs of
           [] \<Rightarrow> [c]
         | e # r \<Rightarrow> c # e # drop_trailing_commas True r)
      else c # drop_trailing_commas True cs)"
| "drop_trailing_commas False (c # cs) =
     (if c = 34 then c # drop_trailing_commas True cs
      else if trailing_comma_at (c # cs)
      then drop_trailing_commas False (dropWhile is_space16 cs)
      else c # drop_trailing_commas False cs)"
  by pat_completeness auto
termination
proof (relation "measure (\<lambda>(b, s). length s)")
  fix c :: int and cs
  have "length (dropWhile is_space16 cs) \<le> length cs"
    by (rule length_dropWhile_le)
  then show "((False, dropWhile is_space16 cs), (False, c # cs)) \<in> measure (\<lambda>(b, s). length s)"
    by simp
qed auto

fun strings_clean :: "bool \<Rightarrow> text16 \<Rightarrow> bool" where
  "strings_clean in_string [] = True"
| "strings_clean True (c # cs) =
     (if c = 34 then strings_clean False cs
      else if c = 92 then
        (case cs of
           [] \<Rightarrow> True
         | e # r \<Rightarrow> \<not> trailing_comma_at (e # r) \<and> strings_clean True r)
      else \<not> trailing_comma_at (c # cs) \<and> strings_clean True cs)"
| "strings_clean False (c # cs) = strings_clean (c = 34) cs"

text \<open>
  The text that is parsed first: the trimmed content of the file, wrapped in brackets
  when it starts with a brace.
\<close>

abbreviation prepared :: "text16 \<Rightarrow> text16" where
  "prepared content \<equiv> wrap_object (trim16 content)"

subsection \<open>Example catalogs\<close>

text \<open>
  A catalog behind a byte-order mark and white space, a single record that is not in
  an array, a catalog with trailing commas, a catalog with a trailing comma whose
  record name holds a comma before a bracket, and a text that is valid JSON but no
  array. \<open>run_record\<close> is the record the first three hold.
\<close>

definition bom_catalog :: text16 where
  "bom_catalog = BOM # text_of '' [{\"name\": \"Dhaka Run\"}] ''"

definition object_catalog :: text16 where
  "object_catalog = text_of ''{\"name\": \"Dhaka Run\"}''"

definition comma_catalog :: text16 where
  "comma_catalog = text_of ''[{\"name\": \"Dhaka Run\", }, ]''"

definition run_record :: "int json" where
  "run_record = JObj [(text_of ''name'', JStr (text_of ''Dhaka Run''))]"

definition string_comma_catalog :: text16 where
  "string_comma_catalog = text_of ''[{\"name\": \"a,]\"},]''"

definition null_catalog :: text16 where
  "null_catalog = text_of ''null''"

section \<open>Properties of the name normalizer\<close>











lemma is_space_blank: "is_space (CHR '' '')"
  by (simp add: is_space_def)


subsection \<open>Slices\<close>







subsection \<open>Collapsed strings\<close>

lemma collapse_ws_hd: "\<not> is_space c \<Longrightarrow> collapse_ws (c # cs) = c # collapse_ws cs"
  by simp










subsection \<open>Occurrences of a word\<close>






subsection \<open>Strings without digits\<close>










subsection \<open>Normal forms\<close>







section \<open>The normalizers of the two scripts\<close>




lemma ci_prefix_Nil [simp]: "ci_prefix [] s" "ci_prefix (a # w) [] = False"
  by (auto simp: ci_prefix_def)






subsection \<open>Season tokens\<close>








subsection \<open>Runs of four digits\<close>







subsection \<open>The two normalizers\<close>




section \<open>Properties of the similarity scorer\<close>

subsection \<open>The recurrence computes the least number of edits\<close>

lemma edit_distance_Nil2 [simp]: "edit_distance xs [] = length xs"
  by (cases xs) auto

lemma edits_edit_distance: "edits a b (edit_distance a b)"
proof (induction a b rule: edit_distance.induct)
  case (1 ys)
  show ?case by (induction ys) (auto intro: edits.intros)
next
  case (2 x xs)
  have "edits xs [] (length xs)" for xs :: "'a list"
    by (induction xs) (auto intro: edits.intros)
  then show ?case by (simp add: edits.delete)
next
  case (3 x xs y ys)
  let ?d = "edit_distance (x # xs) (y # ys)"
  have "?d = Suc (edit_distance xs (y # ys)) \<or> ?d = Suc (edit_distance (x # xs) ys)
      \<or> (x = y \<and> ?d = edit_distance xs ys) \<or> ?d = Suc (edit_distance xs ys)"
    unfolding edit_distance.simps(3) by (cases "x = y") (simp_all add: min_def)
  then consider (del) "?d = Suc (edit_distance xs (y # ys))"
    | (ins) "?d = Suc (edit_distance (x # xs) ys)"
    | (eq) "x = y" "?d = edit_distance xs ys"
    | (sub) "?d = Suc (edit_distance xs ys)"
    by blast
  then show ?case
  proof cases
    case del
    then show ?thesis using 3(1) edits.delete by metis
  next
    case ins
    then show ?thesis using 3(2) edits.insert by metis
  next
    case eq
    then show ?thesis using 3(3) edits.keep by metis
  next
    case sub
    then show ?thesis using 3(3) edits.substitute by metis
  qed
qed

lemma edit_distance_Cons_le: "edit_distance (x # xs) ys \<le> Suc (edit_distance xs ys)"
  by (cases ys) auto

lemma edit_distance_Cons_le2: "edit_distance xs (y # ys) \<le> Suc (edit_distance xs ys)"
  by (cases xs) auto

lemma edit_distance_least: "edits a b n \<Longrightarrow> edit_distance a b \<le> n"
proof (induction rule: edits.induct)
  case finish
  show ?case by simp
next
  case (keep xs ys n x)
  then show ?case by (simp add: min.coboundedI2)
next
  case (substitute xs ys n x y)
  then show ?case by (simp add: min.coboundedI2)
next
  case (delete xs ys n x)
  then show ?case using edit_distance_Cons_le [of x xs ys] by simp
next
  case (insert xs ys n y)
  then show ?case using edit_distance_Cons_le2 [of xs y ys] by simp
qed

text \<open>The recurrence is the least number of edits.\<close>

lemma edit_distance_characterisation:
  "edits a b (edit_distance a b) \<and> (\<forall>n. edits a b n \<longrightarrow> edit_distance a b \<le> n)"
  using edits_edit_distance edit_distance_least by blast

lemma edits_sym: "edits a b n \<Longrightarrow> edits b a n"
  by (induction rule: edits.induct) (auto intro: edits.intros)

lemma edit_distance_sym: "edit_distance a b = edit_distance b a"
  by (meson edits_edit_distance edits_sym edit_distance_least le_antisym)

lemma edits_append: "edits a b n \<Longrightarrow> edits c d m \<Longrightarrow> edits (a @ c) (b @ d) (n + m)"
  by (induction rule: edits.induct) (auto intro: edits.intros)

lemma edits_rev: "edits a b n \<Longrightarrow> edits (rev a) (rev b) n"
proof (induction rule: edits.induct)
  case finish
  show ?case by (simp add: edits.finish)
next
  case (keep xs ys n x)
  have "edits [x] [x] 0" by (simp add: edits.finish edits.keep)
  then show ?case using edits_append [OF keep.IH] by fastforce
next
  case (substitute xs ys n x y)
  have "edits [x] [y] (Suc 0)" by (simp add: edits.finish edits.substitute)
  then show ?case using edits_append [OF substitute.IH] by fastforce
next
  case (delete xs ys n x)
  have "edits [x] [] (Suc 0)" by (simp add: edits.finish edits.delete)
  then show ?case using edits_append [OF delete.IH] by fastforce
next
  case (insert xs ys n y)
  have "edits [] [y] (Suc 0)" by (simp add: edits.finish edits.insert)
  then show ?case using edits_append [OF insert.IH] by fastforce
qed

lemma edit_distance_rev: "edit_distance (rev a) (rev b) = edit_distance a b"
proof (rule le_antisym)
  show "edit_distance (rev a) (rev b) \<le> edit_distance a b"
    using edits_edit_distance edits_rev edit_distance_least by blast
  have "edits (rev (rev a)) (rev (rev b)) (edit_distance (rev a) (rev b))"
    using edits_edit_distance edits_rev by blast
  then show "edit_distance a b \<le> edit_distance (rev a) (rev b)"
    using edit_distance_least by fastforce
qed

lemma edits_drop_hd: "edits a b n \<Longrightarrow> a = x # xs \<Longrightarrow> \<exists>m \<le> Suc n. edits xs b m"
proof (induction arbitrary: x xs rule: edits.induct)
  case finish
  then show ?case by simp
next
  case (keep xs' ys n x')
  then have "edits xs (x' # ys) (Suc n)" by (simp add: edits.insert)
  then show ?case by blast
next
  case (substitute xs' ys n x' y)
  then have "edits xs (y # ys) (Suc n)" by (simp add: edits.insert)
  then have "Suc n \<le> Suc (Suc n) \<and> edits xs (y # ys) (Suc n)" by simp
  then show ?case by blast
next
  case (delete xs' ys n x')
  then have "n \<le> Suc (Suc n) \<and> edits xs ys n" by simp
  then show ?case by blast
next
  case (insert xs' ys n y)
  from insert.IH [OF insert.prems] obtain m where m: "m \<le> Suc n" "edits xs ys m" by blast
  then have "Suc m \<le> Suc (Suc n) \<and> edits xs (y # ys) (Suc m)" by (simp add: edits.insert)
  then show ?case by blast
qed

lemma edit_distance_drop_hd: "edit_distance xs ys \<le> Suc (edit_distance (x # xs) ys)"
  using edits_drop_hd [OF edits_edit_distance refl, of x xs ys] edit_distance_least
  by (meson order_trans)

lemma edit_distance_drop_hd2: "edit_distance xs ys \<le> Suc (edit_distance xs (y # ys))"
  using edit_distance_drop_hd [of ys xs y] by (simp add: edit_distance_sym)

lemma edit_distance_Cons_Cons:
  "edit_distance (x # xs) (y # ys) =
     (if x = y then edit_distance xs ys
      else min (edit_distance xs ys + 1)
             (min (edit_distance (x # xs) ys + 1) (edit_distance xs (y # ys) + 1)))"
  using edit_distance_drop_hd [of xs ys x] edit_distance_drop_hd2 [of xs ys y]
    edit_distance_drop_hd [of xs "y # ys" x] edit_distance_drop_hd2 [of "x # xs" ys y]
  by (auto simp: min_def)

lemma edit_distance_snoc_snoc:
  "edit_distance (xs @ [x]) (ys @ [y]) =
     (if x = y then edit_distance xs ys
      else min (edit_distance xs ys + 1)
             (min (edit_distance (xs @ [x]) ys + 1) (edit_distance xs (ys @ [y]) + 1)))"
proof -
  have "edit_distance (xs @ [x]) (ys @ [y]) = edit_distance (x # rev xs) (y # rev ys)"
    using edit_distance_rev [of "xs @ [x]" "ys @ [y]"] by simp
  also have "\<dots> = (if x = y then edit_distance (rev xs) (rev ys)
      else min (edit_distance (rev xs) (rev ys) + 1)
             (min (edit_distance (x # rev xs) (rev ys) + 1) (edit_distance (rev xs) (y # rev ys) + 1)))"
    by (rule edit_distance_Cons_Cons)
  also have "\<dots> = (if x = y then edit_distance xs ys
      else min (edit_distance xs ys + 1)
             (min (edit_distance (xs @ [x]) ys + 1) (edit_distance xs (ys @ [y]) + 1)))"
    using edit_distance_rev [of xs ys] edit_distance_rev [of "xs @ [x]" ys]
      edit_distance_rev [of xs "ys @ [y]"] by simp
  finally show ?thesis .
qed

lemma edit_distance_le_max: "edit_distance a b \<le> max (length a) (length b)"
  by (induction a b rule: edit_distance.induct) (auto simp: min_def max_def)

lemma edit_distance_refl: "edit_distance a a = 0"
  by (induction a) auto

lemma edit_distance_zero: "edit_distance a b = 0 \<Longrightarrow> a = b"
  by (induction a b rule: edit_distance.induct) (auto simp: min_def split: if_splits)


subsection \<open>The matrix\<close>

lemma array_set_append: "array_set xs (length xs) v = xs @ [v]"
  by (simp add: array_set_def)

lemma array_set_update: "i < length xs \<Longrightarrow> array_set xs i v = xs[i := v]"
  by (simp add: array_set_def)

lemma init_rows:
  "fold (\<lambda>i m. array_set m i [i]) [0..<k] [] = map (\<lambda>i. [i]) [0..<k]"
  by (induction k) (simp_all add: array_set_def)

lemma first_row:
  "fold (\<lambda>j m. array_set m 0 (array_set (m ! 0) j j)) [0..<Suc k] (map (\<lambda>i. [i]) [0..<Suc n])
     = [0..<Suc k] # map (\<lambda>i. [i]) [1..<Suc n]"
proof (induction k)
  case 0
  have h: "map (\<lambda>i. [i]) [0..<Suc n] = [0] # map (\<lambda>i. [i]) [1..<Suc n]"
    by (simp add: upt_conv_Cons del: upt_Suc)
  have z: "[0..<Suc 0] = [0]" by simp
  show ?case unfolding h z by (simp add: array_set_def del: upt_Suc)
next
  case (Suc k)
  have "fold (\<lambda>j m. array_set m 0 (array_set (m ! 0) j j)) [0..<Suc (Suc k)] (map (\<lambda>i. [i]) [0..<Suc n])
      = (\<lambda>m. array_set m 0 (array_set (m ! 0) (Suc k) (Suc k)))
          (fold (\<lambda>j m. array_set m 0 (array_set (m ! 0) j j)) [0..<Suc k] (map (\<lambda>i. [i]) [0..<Suc n]))"
    by simp
  also have "\<dots> = array_set ([0..<Suc k] # map (\<lambda>i. [i]) [1..<Suc n]) 0
       (array_set [0..<Suc k] (Suc k) (Suc k))"
    unfolding Suc.IH by simp
  also have "\<dots> = [0..<Suc (Suc k)] # map (\<lambda>i. [i]) [1..<Suc n]"
    using array_set_append [of "[0..<Suc k]" "Suc k"] by (simp add: array_set_update)
  finally show ?case .
qed

lemma dp_row_0: "dp_row str1 str2 0 = [0..<Suc (length str1)]"
proof -
  have "map (\<lambda>j. edit_distance (take 0 str2) (take j str1)) [0..<Suc (length str1)]
      = map (\<lambda>j. j) [0..<Suc (length str1)]"
    by (rule map_cong) (auto simp del: upt_Suc)
  then show ?thesis by (simp add: dp_row_def del: upt_Suc)
qed

lemma rows_filled_init:
  "rows_filled str1 str2 1 ([0..<Suc (length str1)] # map (\<lambda>i. [i]) [1..<Suc (length str2)])"
  unfolding rows_filled_def
proof (intro conjI allI impI)
  show "length ([0..<Suc (length str1)] # map (\<lambda>i. [i]) [1..<Suc (length str2)]) = Suc (length str2)"
    by (simp del: upt_Suc)
next
  fix q :: nat
  assume "q < 1"
  then show "([0..<Suc (length str1)] # map (\<lambda>i. [i]) [1..<Suc (length str2)]) ! q = dp_row str1 str2 q"
    by (simp add: dp_row_0 del: upt_Suc)
next
  fix q :: nat
  assume q: "1 \<le> q \<and> q \<le> length str2"
  then obtain p where p: "q = Suc p" by (cases q) auto
  then have "p < length [1..<Suc (length str2)]" using q by (simp del: upt_Suc)
  then have "map (\<lambda>i. [i]) [1..<Suc (length str2)] ! p = [[1..<Suc (length str2)] ! p]"
    by (rule nth_map)
  also have "[1..<Suc (length str2)] ! p = q" using p q by (simp del: upt_Suc)
  finally show "([0..<Suc (length str1)] # map (\<lambda>i. [i]) [1..<Suc (length str2)]) ! q = [q]"
    using p by simp
qed


lemma row_partial_start:
  assumes "rows_filled str1 str2 i m" and "i \<le> length str2"
  shows "row_partial str1 str2 i 0 m"
proof -
  have "m ! i = [i]" using assms by (simp add: rows_filled_def)
  moreover have "edit_distance (take i str2) (take 0 str1) = i" using assms(2) by simp
  ultimately show ?thesis using assms(1) by (simp add: rows_filled_def row_partial_def)
qed

lemma dp_row_nth:
  "j \<le> length str1 \<Longrightarrow> dp_row str1 str2 i ! j = edit_distance (take i str2) (take j str1)"
proof -
  assume j: "j \<le> length str1"
  then have "j < length [0..<Suc (length str1)]" by (simp del: upt_Suc)
  then have "map (\<lambda>j. edit_distance (take i str2) (take j str1)) [0..<Suc (length str1)] ! j
      = edit_distance (take i str2) (take ([0..<Suc (length str1)] ! j) str1)"
    by (rule nth_map)
  moreover have "[0..<Suc (length str1)] ! j = j" using j by (simp del: upt_Suc)
  ultimately show ?thesis by (simp add: dp_row_def del: upt_Suc)
qed

lemma partial_row_nth:
  "j \<le> t \<Longrightarrow> map (\<lambda>j. edit_distance a (take j str1)) [0..<Suc t] ! j = edit_distance a (take j str1)"
proof -
  assume j: "j \<le> t"
  then have "j < length [0..<Suc t]" by (simp del: upt_Suc)
  then have "map (\<lambda>j. edit_distance a (take j str1)) [0..<Suc t] ! j
      = edit_distance a (take ([0..<Suc t] ! j) str1)"
    by (rule nth_map)
  moreover have "[0..<Suc t] ! j = j" using j by (simp del: upt_Suc)
  ultimately show ?thesis by simp
qed

lemma matrix_cell_correct:
  assumes p: "row_partial str1 str2 i t m" and i: "1 \<le> i" "i \<le> length str2"
    and t: "t < length str1"
  shows "matrix_cell str1 str2 m i (Suc t) = edit_distance (take i str2) (take (Suc t) str1)"
proof -
  obtain k where k: "i = Suc k" using i(1) by (cases i) auto
  have prev: "m ! k = dp_row str1 str2 k" using p k by (simp add: row_partial_def)
  have cur: "m ! i = map (\<lambda>j. edit_distance (take i str2) (take j str1)) [0..<Suc t]"
    using p by (simp add: row_partial_def)
  have d: "m ! k ! t = edit_distance (take k str2) (take t str1)"
    using prev t dp_row_nth [of t str1 str2 k] by simp
  have u: "m ! k ! Suc t = edit_distance (take k str2) (take (Suc t) str1)"
    using prev t dp_row_nth [of "Suc t" str1 str2 k] by simp
  have l: "m ! i ! t = edit_distance (take i str2) (take t str1)"
    using cur partial_row_nth [of t t "take i str2" str1] by simp
  have a: "take i str2 = take k str2 @ [str2 ! k]"
    using k i(2) by (simp add: take_Suc_conv_app_nth)
  have b: "take (Suc t) str1 = take t str1 @ [str1 ! t]"
    using t by (simp add: take_Suc_conv_app_nth)
  have "edit_distance (take i str2) (take (Suc t) str1)
      = (if str2 ! k = str1 ! t then edit_distance (take k str2) (take t str1)
         else min (edit_distance (take k str2) (take t str1) + 1)
                (min (edit_distance (take k str2 @ [str2 ! k]) (take t str1) + 1)
                     (edit_distance (take k str2) (take t str1 @ [str1 ! t]) + 1)))"
    unfolding a b by (rule edit_distance_snoc_snoc)
  also have "\<dots> = matrix_cell str1 str2 m i (Suc t)"
    using d u l unfolding matrix_cell_def k a [unfolded k] b [symmetric]
    by (simp add: a [unfolded k, symmetric])
  finally show ?thesis by simp
qed


lemma row_partial_step:
  assumes p: "row_partial str1 str2 i t m" and i: "1 \<le> i" "i \<le> length str2"
    and t: "t < length str1"
  shows "row_partial str1 str2 i (Suc t)
           (array_set m i (array_set (m ! i) (Suc t) (matrix_cell str1 str2 m i (Suc t))))"
proof -
  let ?v = "matrix_cell str1 str2 m i (Suc t)"
  let ?row = "map (\<lambda>j. edit_distance (take i str2) (take j str1)) [0..<Suc t]"
  have cur: "m ! i = ?row" using p by (simp add: row_partial_def)
  have len: "length m = Suc (length str2)" using p by (simp add: row_partial_def)
  have v: "?v = edit_distance (take i str2) (take (Suc t) str1)"
    using p i t by (rule matrix_cell_correct)
  have "length (m ! i) = Suc t" unfolding cur by simp
  then have "array_set (m ! i) (Suc t) ?v = m ! i @ [?v]"
    using array_set_append [of "m ! i" ?v] by simp
  also have "\<dots> = map (\<lambda>j. edit_distance (take i str2) (take j str1)) [0..<Suc (Suc t)]"
    unfolding cur v by simp
  finally have row: "array_set (m ! i) (Suc t) ?v
      = map (\<lambda>j. edit_distance (take i str2) (take j str1)) [0..<Suc (Suc t)]" .
  have upd: "array_set m i (array_set (m ! i) (Suc t) ?v)
      = m[i := map (\<lambda>j. edit_distance (take i str2) (take j str1)) [0..<Suc (Suc t)]]"
    unfolding row using len i(2) by (simp add: array_set_update)
  show ?thesis
    unfolding upd using p len i(2) by (simp add: row_partial_def del: upt_Suc)
qed

lemma inner_loop:
  assumes "row_partial str1 str2 i 0 m" and "1 \<le> i" "i \<le> length str2"
  shows "t \<le> length str1 \<Longrightarrow>
    row_partial str1 str2 i t
      (fold (\<lambda>j m. array_set m i (array_set (m ! i) j (matrix_cell str1 str2 m i j))) [1..<Suc t] m)"
proof (induction t)
  case 0
  show ?case using assms(1) by simp
next
  case (Suc t)
  let ?f = "\<lambda>j m. array_set m i (array_set (m ! i) j (matrix_cell str1 str2 m i j))"
  have "row_partial str1 str2 i t (fold ?f [1..<Suc t] m)" using Suc by simp
  then have "row_partial str1 str2 i (Suc t) (?f (Suc t) (fold ?f [1..<Suc t] m))"
    using assms(2,3) Suc.prems by (intro row_partial_step) simp_all
  moreover have "fold ?f [1..<Suc (Suc t)] m = ?f (Suc t) (fold ?f [1..<Suc t] m)"
    by simp
  ultimately show ?case by simp
qed

lemma row_partial_finish:
  assumes "row_partial str1 str2 i (length str1) m"
  shows "rows_filled str1 str2 (Suc i) m"
  unfolding rows_filled_def
proof (intro conjI allI impI)
  show "length m = Suc (length str2)" using assms by (simp add: row_partial_def)
next
  fix q
  assume "q < Suc i"
  then consider "q < i" | "q = i" by linarith
  then show "m ! q = dp_row str1 str2 q"
    using assms by cases (simp_all add: row_partial_def dp_row_def)
next
  fix q
  assume "Suc i \<le> q \<and> q \<le> length str2"
  then show "m ! q = [q]" using assms by (simp add: row_partial_def)
qed

lemma outer_loop:
  assumes "rows_filled str1 str2 1 m"
  shows "r \<le> length str2 \<Longrightarrow>
    rows_filled str1 str2 (Suc r)
      (fold (\<lambda>i m. fold (\<lambda>j m. array_set m i (array_set (m ! i) j (matrix_cell str1 str2 m i j)))
                       [1..<Suc (length str1)] m)
         [1..<Suc r] m)"
proof (induction r)
  case 0
  show ?case using assms by simp
next
  case (Suc r)
  let ?g = "\<lambda>i m. fold (\<lambda>j m. array_set m i (array_set (m ! i) j (matrix_cell str1 str2 m i j)))
                       [1..<Suc (length str1)] m"
  let ?m = "fold ?g [1..<Suc r] m"
  have "rows_filled str1 str2 (Suc r) ?m" using Suc by simp
  then have "row_partial str1 str2 (Suc r) 0 ?m"
    using Suc.prems by (rule row_partial_start)
  then have "row_partial str1 str2 (Suc r) (length str1) (?g (Suc r) ?m)"
    using Suc.prems by (intro inner_loop) simp_all
  then have "rows_filled str1 str2 (Suc (Suc r)) (?g (Suc r) ?m)"
    by (rule row_partial_finish)
  moreover have "fold ?g [1..<Suc (Suc r)] m = ?g (Suc r) ?m" by simp
  ultimately show ?case by simp
qed

lemma levenshteinDistance_edit_distance:
  "levenshteinDistance str1 str2 = edit_distance str1 str2"
proof -
  let ?g = "\<lambda>i m. fold (\<lambda>j m. array_set m i (array_set (m ! i) j (matrix_cell str1 str2 m i j)))
                       [1..<Suc (length str1)] m"
  let ?m0 = "[0..<Suc (length str1)] # map (\<lambda>i. [i]) [1..<Suc (length str2)]"
  let ?m = "fold ?g [1..<Suc (length str2)] ?m0"
  have "levenshteinDistance str1 str2 = ?m ! length str2 ! length str1"
    unfolding levenshteinDistance_def Let_def init_rows first_row ..
  moreover have "rows_filled str1 str2 (Suc (length str2)) ?m"
    using rows_filled_init by (intro outer_loop) simp_all
  then have "?m ! length str2 = dp_row str1 str2 (length str2)"
    by (simp add: rows_filled_def)
  moreover have "dp_row str1 str2 (length str2) ! length str1
      = edit_distance (take (length str2) str2) (take (length str1) str1)"
    by (rule dp_row_nth) simp
  ultimately show ?thesis by (simp add: edit_distance_sym)
qed


subsection \<open>The similarity\<close>

lemma calculateSimilarity_nonempty:
  assumes "a \<noteq> []" and "b \<noteq> []"
  shows "calculateSimilarity a b =
     (of_nat (max (length a) (length b)) - of_nat (edit_distance a b))
       / of_nat (max (length a) (length b))"
proof (cases "length a > length b")
  case True
  then show ?thesis using assms
    by (simp add: calculateSimilarity_def Let_def levenshteinDistance_edit_distance max_def)
next
  case False
  then show ?thesis using assms
    by (simp add: calculateSimilarity_def Let_def levenshteinDistance_edit_distance max_def
        edit_distance_sym [of b a])
qed

lemma calculateSimilarity_empty: "calculateSimilarity a [] = 0" "calculateSimilarity [] a = 0"
  by (simp_all add: calculateSimilarity_def)

text \<open>
  Claim C3, as amended: for every pair of strings that are not both empty,
  \<open>calculateSimilarity a b\<close> is \<open>(maxLen - d) / maxLen\<close>, where \<open>maxLen\<close> is the
  length of the longer string and \<open>d\<close>, the result of \<open>levenshteinDistance\<close>, is the
  classic edit distance of \<open>a\<close> and \<open>b\<close>; for \<^verbatim>\<open>kitten\<close> and \<^verbatim>\<open>sitting\<close> it is
  \<open>4/7\<close>.
\<close>

theorem calculateSimilarity_formula:
  "(a \<noteq> [] \<or> b \<noteq> [] \<longrightarrow>
      calculateSimilarity a b =
        (of_nat (max (length a) (length b)) - of_nat (levenshteinDistance a b))
          / of_nat (max (length a) (length b))
      \<and> levenshteinDistance a b = edit_distance a b
      \<and> similarity_formula a b = Some (calculateSimilarity a b))
   \<and> calculateSimilarity ''kitten'' ''sitting'' = 4 / 7"
proof (intro conjI impI)
  assume ne: "a \<noteq> [] \<or> b \<noteq> []"
  show f: "calculateSimilarity a b =
        (of_nat (max (length a) (length b)) - of_nat (levenshteinDistance a b))
          / of_nat (max (length a) (length b))"
  proof (cases "a = [] \<or> b = []")
    case True
    then show ?thesis using ne
      by (auto simp: calculateSimilarity_empty levenshteinDistance_edit_distance)
  next
    case False
    then show ?thesis
      by (simp add: calculateSimilarity_nonempty levenshteinDistance_edit_distance)
  qed
  show "levenshteinDistance a b = edit_distance a b"
    by (rule levenshteinDistance_edit_distance)
  have "max (length a) (length b) \<noteq> 0" using ne by auto
  then show "similarity_formula a b = Some (calculateSimilarity a b)"
    unfolding f by (simp add: similarity_formula_def Let_def levenshteinDistance_edit_distance)
next
  have "edit_distance ''kitten'' ''sitting'' = 3" by simp
  then show "calculateSimilarity ''kitten'' ''sitting'' = 4 / 7"
    by (simp add: calculateSimilarity_nonempty)
qed

text \<open>The formula at \<^verbatim>\<open>kitten\<close> and \<^verbatim>\<open>sitting\<close>: three edits over seven characters.\<close>

theorem calculateSimilarity_formula_witness:
  "''kitten'' \<noteq> [] \<and> levenshteinDistance ''kitten'' ''sitting'' = 3
   \<and> calculateSimilarity ''kitten'' ''sitting'' = (7 - 3) / 7
   \<and> similarity_formula ''kitten'' ''sitting'' = Some (4 / 7)"
proof -
  have "edit_distance ''kitten'' ''sitting'' = 3" by simp
  then show ?thesis
    using calculateSimilarity_formula [of "''kitten''" "''sitting''"] by simp
qed

text \<open>
  Claim C3 as stated covers two empty strings, where the formula is \<open>0 / 0\<close> and the
  script returns 0 from its first guard.
\<close>

theorem calculateSimilarity_formula_counterexample:
  "similarity_formula [] [] \<noteq> Some (calculateSimilarity [] [])"
  by (simp add: similarity_formula_def)

text \<open>
  Claim C2, as amended: \<open>calculateSimilarity\<close> returns 1 for two identical non-empty
  strings, 0 when exactly one string is empty, and for two distinct non-empty strings
  a value \<open>v\<close> with \<open>0 \<le> v < 1\<close>.
\<close>

theorem calculateSimilarity_contract:
  "(a \<noteq> [] \<longrightarrow> calculateSimilarity a a = 1)
   \<and> (a \<noteq> [] \<longrightarrow> calculateSimilarity a [] = 0 \<and> calculateSimilarity [] a = 0)
   \<and> (a \<noteq> [] \<and> b \<noteq> [] \<and> a \<noteq> b \<longrightarrow>
        0 \<le> calculateSimilarity a b \<and> calculateSimilarity a b < 1)"
proof (intro conjI impI)
  assume "a \<noteq> []"
  then show "calculateSimilarity a a = 1"
    by (simp add: calculateSimilarity_nonempty edit_distance_refl)
next
  show "calculateSimilarity a [] = 0" "calculateSimilarity [] a = 0"
    by (rule calculateSimilarity_empty)+
next
  assume h: "a \<noteq> [] \<and> b \<noteq> [] \<and> a \<noteq> b"
  let ?L = "max (length a) (length b)"
  let ?d = "edit_distance a b"
  have L: "0 < ?L" using h by (simp add: less_max_iff_disj)
  have d: "?d \<le> ?L" by (rule edit_distance_le_max)
  have p: "0 < ?d" using h edit_distance_zero [of a b] by auto
  have f: "calculateSimilarity a b = (of_nat ?L - of_nat ?d) / of_nat ?L"
    using h by (simp add: calculateSimilarity_nonempty)
  have "(0::rat) \<le> of_nat ?L - of_nat ?d" using d by simp
  then show "0 \<le> calculateSimilarity a b" unfolding f using L by simp
  have "(of_nat ?L - of_nat ?d :: rat) < of_nat ?L" using p by simp
  then show "calculateSimilarity a b < 1" unfolding f using L by (simp add: divide_less_eq)
qed

text \<open>The three cases at \<^verbatim>\<open>abc\<close> and \<^verbatim>\<open>abd\<close>.\<close>

theorem calculateSimilarity_contract_witness:
  "''abc'' \<noteq> [] \<and> ''abd'' \<noteq> [] \<and> ''abc'' \<noteq> ''abd''
   \<and> calculateSimilarity ''abc'' ''abc'' = 1
   \<and> calculateSimilarity ''abc'' [] = 0 \<and> calculateSimilarity [] ''abc'' = 0
   \<and> 0 \<le> calculateSimilarity ''abc'' ''abd'' \<and> calculateSimilarity ''abc'' ''abd'' < 1"
  using calculateSimilarity_contract [of "''abc''" "''abd''"] by simp

text \<open>
  Claim C2 as stated fails: two distinct non-empty strings with no character in
  common position, \<^verbatim>\<open>abc\<close> and \<^verbatim>\<open>xyz\<close>, have similarity 0, which is not strictly
  between 0 and 1.
\<close>

theorem calculateSimilarity_contract_counterexample:
  "\<not> (0 < calculateSimilarity ''abc'' ''xyz'' \<and> calculateSimilarity ''abc'' ''xyz'' < 1)"
proof -
  have "edit_distance ''abc'' ''xyz'' = 3" by simp
  then have "calculateSimilarity ''abc'' ''xyz'' = 0"
    by (simp add: calculateSimilarity_nonempty)
  then show ?thesis by simp
qed

section \<open>Properties of the reconciler\<close>

subsection \<open>The search for the best match\<close>

lemma best_match_loop_result:
  "(best_match_loop t es bm bs = bm
      \<and> (\<forall>x\<in>set es. \<not> (calculateSimilarity t (normalizedName (snd x)) > bs
                             \<and> calculateSimilarity t (normalizedName (snd x)) > 7 / 10)))
   \<or> (\<exists>p<length es.
        best_match_loop t es bm bs
          = Some \<lparr>match_eventId = fst (es ! p), match_eventName = raw_eventName (snd (es ! p)),
                  match_similarity = calculateSimilarity t (normalizedName (snd (es ! p)))\<rparr>
        \<and> calculateSimilarity t (normalizedName (snd (es ! p))) > bs
        \<and> calculateSimilarity t (normalizedName (snd (es ! p))) > 7 / 10
        \<and> (\<forall>q<length es. calculateSimilarity t (normalizedName (snd (es ! q)))
                \<le> calculateSimilarity t (normalizedName (snd (es ! p))))
        \<and> (\<forall>q<p. calculateSimilarity t (normalizedName (snd (es ! q)))
                < calculateSimilarity t (normalizedName (snd (es ! p)))))"
  (is "?none es bm bs \<or> ?some es bm bs")
proof (induction es arbitrary: bm bs)
  case Nil
  show ?case by simp
next
  case (Cons x es)
  obtain k e where x: "x = (k, e)" by (cases x)
  let ?s = "\<lambda>e. calculateSimilarity t (normalizedName e)"
  show ?case
  proof (cases "?s e > bs \<and> ?s e > 7 / 10")
    case True
    let ?bm = "Some \<lparr>match_eventId = k, match_eventName = raw_eventName e, match_similarity = ?s e\<rparr>"
    have step: "best_match_loop t (x # es) bm bs = best_match_loop t es ?bm (?s e)"
      using True x by (simp add: Let_def)
    from Cons.IH [of ?bm "?s e"] show ?thesis
    proof
      assume n: "?none es ?bm (?s e)"
      have le: "\<forall>q<length es. ?s (snd (es ! q)) \<le> ?s e"
      proof (intro allI impI)
        fix q
        assume "q < length es"
        then have "es ! q \<in> set es" by simp
        then have "\<not> (?s (snd (es ! q)) > ?s e \<and> ?s (snd (es ! q)) > 7 / 10)"
          using n by blast
        then show "?s (snd (es ! q)) \<le> ?s e" using True by auto
      qed
      have "?some (x # es) bm bs"
      proof (intro exI [of _ 0] conjI)
        show "0 < length (x # es)" by simp
        show "best_match_loop t (x # es) bm bs
          = Some \<lparr>match_eventId = fst ((x # es) ! 0),
                  match_eventName = raw_eventName (snd ((x # es) ! 0)),
                  match_similarity = ?s (snd ((x # es) ! 0))\<rparr>"
          using step n x by simp
        show "bs < ?s (snd ((x # es) ! 0))" "7 / 10 < ?s (snd ((x # es) ! 0))"
          using True x by simp_all
        show "\<forall>q<length (x # es). ?s (snd ((x # es) ! q)) \<le> ?s (snd ((x # es) ! 0))"
          using le x by (auto simp: nth_Cons split: nat.splits)
        show "\<forall>q<0. ?s (snd ((x # es) ! q)) < ?s (snd ((x # es) ! 0))" by simp
      qed
      then show ?thesis ..
    next
      assume "?some es ?bm (?s e)"
      then obtain p where p: "p < length es"
        "best_match_loop t es ?bm (?s e)
          = Some \<lparr>match_eventId = fst (es ! p), match_eventName = raw_eventName (snd (es ! p)),
                  match_similarity = ?s (snd (es ! p))\<rparr>"
        "?s (snd (es ! p)) > ?s e" "?s (snd (es ! p)) > 7 / 10"
        "\<forall>q<length es. ?s (snd (es ! q)) \<le> ?s (snd (es ! p))"
        "\<forall>q<p. ?s (snd (es ! q)) < ?s (snd (es ! p))"
        by blast
      have "?some (x # es) bm bs"
      proof (intro exI [of _ "Suc p"] conjI)
        show "Suc p < length (x # es)" using p(1) by simp
        show "best_match_loop t (x # es) bm bs
          = Some \<lparr>match_eventId = fst ((x # es) ! Suc p),
                  match_eventName = raw_eventName (snd ((x # es) ! Suc p)),
                  match_similarity = ?s (snd ((x # es) ! Suc p))\<rparr>"
          using step p(2) by simp
        show "bs < ?s (snd ((x # es) ! Suc p))" using True p(3) by simp
        show "7 / 10 < ?s (snd ((x # es) ! Suc p))" using p(4) by simp
        show "\<forall>q<length (x # es). ?s (snd ((x # es) ! q)) \<le> ?s (snd ((x # es) ! Suc p))"
          using p(3,5) x by (auto simp: nth_Cons split: nat.splits)
        show "\<forall>q<Suc p. ?s (snd ((x # es) ! q)) < ?s (snd ((x # es) ! Suc p))"
          using p(3,6) x by (auto simp: nth_Cons split: nat.splits)
      qed
      then show ?thesis ..
    qed
  next
    case False
    have step: "best_match_loop t (x # es) bm bs = best_match_loop t es bm bs"
      using False x by (auto simp: Let_def)
    from Cons.IH [of bm bs] show ?thesis
    proof
      assume "?none es bm bs"
      then have "?none (x # es) bm bs" using step False x by auto
      then show ?thesis ..
    next
      assume "?some es bm bs"
      then obtain p where p: "p < length es"
        "best_match_loop t es bm bs
          = Some \<lparr>match_eventId = fst (es ! p), match_eventName = raw_eventName (snd (es ! p)),
                  match_similarity = ?s (snd (es ! p))\<rparr>"
        "?s (snd (es ! p)) > bs" "?s (snd (es ! p)) > 7 / 10"
        "\<forall>q<length es. ?s (snd (es ! q)) \<le> ?s (snd (es ! p))"
        "\<forall>q<p. ?s (snd (es ! q)) < ?s (snd (es ! p))"
        by blast
      have lt: "?s e < ?s (snd (es ! p))" using False p(3,4) by auto
      have "?some (x # es) bm bs"
      proof (intro exI [of _ "Suc p"] conjI)
        show "Suc p < length (x # es)" using p(1) by simp
        show "best_match_loop t (x # es) bm bs
          = Some \<lparr>match_eventId = fst ((x # es) ! Suc p),
                  match_eventName = raw_eventName (snd ((x # es) ! Suc p)),
                  match_similarity = ?s (snd ((x # es) ! Suc p))\<rparr>"
          using step p(2) by simp
        show "bs < ?s (snd ((x # es) ! Suc p))" using p(3) by simp
        show "7 / 10 < ?s (snd ((x # es) ! Suc p))" using p(4) by simp
        show "\<forall>q<length (x # es). ?s (snd ((x # es) ! q)) \<le> ?s (snd ((x # es) ! Suc p))"
          using lt p(5) x by (auto simp: nth_Cons split: nat.splits)
        show "\<forall>q<Suc p. ?s (snd ((x # es) ! q)) < ?s (snd ((x # es) ! Suc p))"
          using lt p(6) x by (auto simp: nth_Cons split: nat.splits)
      qed
      then show ?thesis ..
    qed
  qed
qed


lemma calculateSimilarity_nonneg: "0 \<le> calculateSimilarity a b"
proof (cases "a = [] \<or> b = []")
  case True
  then show ?thesis by (auto simp: calculateSimilarity_empty)
next
  case False
  have "(of_nat (edit_distance a b) :: rat) \<le> of_nat (max (length a) (length b))"
    using edit_distance_le_max [of a b] by (simp only: of_nat_le_iff)
  then show ?thesis using False by (simp add: calculateSimilarity_nonempty)
qed

lemma findCorrectEventId_None_iff:
  "findCorrectEventId nm idx = None \<longleftrightarrow>
     (\<forall>x\<in>set idx. calculateSimilarity (normalizeEventName nm) (normalizedName (snd x)) \<le> 7 / 10)"
proof -
  let ?t = "normalizeEventName nm"
  from best_match_loop_result [of ?t idx None 0]
  show ?thesis unfolding findCorrectEventId_def
  proof
    assume a: "best_match_loop ?t idx None 0 = None \<and>
      (\<forall>x\<in>set idx. \<not> (0 < calculateSimilarity ?t (normalizedName (snd x))
          \<and> 7 / 10 < calculateSimilarity ?t (normalizedName (snd x))))"
    have "calculateSimilarity ?t (normalizedName (snd x)) \<le> 7 / 10" if "x \<in> set idx" for x
    proof (rule ccontr)
      assume "\<not> calculateSimilarity ?t (normalizedName (snd x)) \<le> 7 / 10"
      then have "7 / 10 < calculateSimilarity ?t (normalizedName (snd x))" by simp
      moreover from this have "0 < calculateSimilarity ?t (normalizedName (snd x))" by simp
      ultimately show False using a that by blast
    qed
    then show "best_match_loop ?t idx None 0 = None \<longleftrightarrow>
      (\<forall>x\<in>set idx. calculateSimilarity ?t (normalizedName (snd x)) \<le> 7 / 10)"
      using a by blast
  next
    assume "\<exists>p<length idx.
        best_match_loop ?t idx None 0
          = Some \<lparr>match_eventId = fst (idx ! p), match_eventName = raw_eventName (snd (idx ! p)),
                  match_similarity = calculateSimilarity ?t (normalizedName (snd (idx ! p)))\<rparr>
        \<and> calculateSimilarity ?t (normalizedName (snd (idx ! p))) > 0
        \<and> calculateSimilarity ?t (normalizedName (snd (idx ! p))) > 7 / 10
        \<and> (\<forall>q<length idx. calculateSimilarity ?t (normalizedName (snd (idx ! q)))
                \<le> calculateSimilarity ?t (normalizedName (snd (idx ! p))))
        \<and> (\<forall>q<p. calculateSimilarity ?t (normalizedName (snd (idx ! q)))
                < calculateSimilarity ?t (normalizedName (snd (idx ! p))))"
    then obtain p where p: "p < length idx"
      "best_match_loop ?t idx None 0 \<noteq> None"
      "calculateSimilarity ?t (normalizedName (snd (idx ! p))) > 7 / 10"
      by auto
    then have "idx ! p \<in> set idx" by simp
    then have "\<not> (\<forall>x\<in>set idx. calculateSimilarity ?t (normalizedName (snd x)) \<le> 7 / 10)"
      using p(3) by (meson not_le)
    then show "best_match_loop ?t idx None 0 = None \<longleftrightarrow>
      (\<forall>x\<in>set idx. calculateSimilarity ?t (normalizedName (snd x)) \<le> 7 / 10)"
      using p(2) by blast
  qed
qed

lemma findCorrectEventId_Some:
  assumes "findCorrectEventId nm idx = Some m"
  shows "\<exists>p<length idx.
      m = \<lparr>match_eventId = fst (idx ! p), match_eventName = raw_eventName (snd (idx ! p)),
           match_similarity =
             calculateSimilarity (normalizeEventName nm) (normalizedName (snd (idx ! p)))\<rparr>
      \<and> calculateSimilarity (normalizeEventName nm) (normalizedName (snd (idx ! p))) > 7 / 10
      \<and> (\<forall>q<length idx. calculateSimilarity (normalizeEventName nm) (normalizedName (snd (idx ! q)))
              \<le> calculateSimilarity (normalizeEventName nm) (normalizedName (snd (idx ! p))))
      \<and> (\<forall>q<p. calculateSimilarity (normalizeEventName nm) (normalizedName (snd (idx ! q)))
              < calculateSimilarity (normalizeEventName nm) (normalizedName (snd (idx ! p))))"
proof -
  let ?t = "normalizeEventName nm"
  have r: "best_match_loop ?t idx None 0 = Some m"
    using assms by (simp add: findCorrectEventId_def)
  from best_match_loop_result [of ?t idx None 0] show ?thesis
  proof
    assume "best_match_loop ?t idx None 0 = None \<and>
      (\<forall>x\<in>set idx. \<not> (0 < calculateSimilarity ?t (normalizedName (snd x))
          \<and> 7 / 10 < calculateSimilarity ?t (normalizedName (snd x))))"
    then show ?thesis using r by simp
  next
    assume "\<exists>p<length idx.
        best_match_loop ?t idx None 0
          = Some \<lparr>match_eventId = fst (idx ! p), match_eventName = raw_eventName (snd (idx ! p)),
                  match_similarity = calculateSimilarity ?t (normalizedName (snd (idx ! p)))\<rparr>
        \<and> calculateSimilarity ?t (normalizedName (snd (idx ! p))) > 0
        \<and> calculateSimilarity ?t (normalizedName (snd (idx ! p))) > 7 / 10
        \<and> (\<forall>q<length idx. calculateSimilarity ?t (normalizedName (snd (idx ! q)))
                \<le> calculateSimilarity ?t (normalizedName (snd (idx ! p))))
        \<and> (\<forall>q<p. calculateSimilarity ?t (normalizedName (snd (idx ! q)))
                < calculateSimilarity ?t (normalizedName (snd (idx ! p))))"
    then show ?thesis unfolding r by (metis option.inject)
  qed
qed

subsection \<open>One record\<close>

lemma fix_event_NoLink:
  "currentEventId ev = None \<Longrightarrow> fix_event idx i ev = (ev, NoLink)"
  by (auto simp: fix_event_def currentEventId_def split: option.splits if_splits)

lemma fix_event_RawNotFound:
  "currentEventId ev = Some c \<Longrightarrow> object_get idx c = None \<Longrightarrow> fix_event idx i ev = (ev, RawNotFound)"
  by (auto simp: fix_event_def currentEventId_def split: option.splits if_splits)

lemma fix_event_LinkCorrect:
  "currentEventId ev = Some c \<Longrightarrow> object_get idx c = Some cur \<Longrightarrow>
   calculateSimilarity (normalizeEventName (name ev)) (normalizedName cur) \<ge> 7 / 10 \<Longrightarrow>
   fix_event idx i ev = (ev, LinkCorrect)"
  by (auto simp: fix_event_def currentEventId_def split: option.splits if_splits)

lemma fix_event_NoGoodMatch:
  "currentEventId ev = Some c \<Longrightarrow> object_get idx c = Some cur \<Longrightarrow>
   calculateSimilarity (normalizeEventName (name ev)) (normalizedName cur) < 7 / 10 \<Longrightarrow>
   findCorrectEventId (name ev) idx = None
     \<or> (\<exists>m. findCorrectEventId (name ev) idx = Some m \<and> match_eventId m = c) \<Longrightarrow>
   fix_event idx i ev = (ev, NoGoodMatch)"
  by (auto simp: fix_event_def currentEventId_def split: option.splits if_splits)

lemma fix_event_Fixed:
  "currentEventId ev = Some c \<Longrightarrow> object_get idx c = Some cur \<Longrightarrow>
   calculateSimilarity (normalizeEventName (name ev)) (normalizedName cur) < 7 / 10 \<Longrightarrow>
   findCorrectEventId (name ev) idx = Some m \<Longrightarrow> match_eventId m \<noteq> c \<Longrightarrow>
   fbLink ev = Some link \<Longrightarrow>
   fix_event idx i ev =
     (ev\<lparr>fbLink := Some (''https://www.facebook.com/events/'' @ match_eventId m)\<rparr>,
      Fixed \<lparr>eventIndex = i + 1, fix_eventName = name ev, oldEventId = c,
             oldEventName = raw_eventName cur, newEventId = match_eventId m,
             newEventName = match_eventName m, similarity = match_similarity m,
             oldLink = link,
             newLink = ''https://www.facebook.com/events/'' @ match_eventId m\<rparr>)"
  by (auto simp: fix_event_def currentEventId_def Let_def split: option.splits if_splits)

lemma currentEventId_link:
  "currentEventId ev = Some c \<Longrightarrow> \<exists>link. fbLink ev = Some link \<and> match_events_id link = Some c"
  by (auto simp: currentEventId_def split: option.splits if_splits)

lemma fix_event_unchanged:
  "fix_of (snd (fix_event idx i ev)) = None \<Longrightarrow> fst (fix_event idx i ev) = ev"
  by (auto simp: fix_event_def Let_def split: option.splits if_splits)

lemma fix_event_eventIndex:
  "snd (fix_event idx i ev) = Fixed f \<Longrightarrow> eventIndex f = i + 1"
  by (auto simp: fix_event_def Let_def split: option.splits if_splits)

subsection \<open>The loop over the catalog\<close>

lemma map_filter_snoc:
  "List.map_filter g (xs @ [x]) = List.map_filter g xs @ (case g x of None \<Rightarrow> [] | Some y \<Rightarrow> [y])"
  by (simp add: List.map_filter_def split: option.splits)

lemma fix_step_result:
  assumes k: "k < length events"
    and ev: "st_events st = map (\<lambda>i. fst (fix_event idx i (events ! i))) [0..<k] @ drop k events"
  shows "fix_step idx k st =
     st\<lparr>st_events := map (\<lambda>i. fst (fix_event idx i (events ! i))) [0..<Suc k] @ drop (Suc k) events,
        st_fixedCount := st_fixedCount st
           + length (case fix_of (snd (fix_event idx k (events ! k))) of None \<Rightarrow> [] | Some f \<Rightarrow> [f]),
        st_fixes := st_fixes st
           @ (case fix_of (snd (fix_event idx k (events ! k))) of None \<Rightarrow> [] | Some f \<Rightarrow> [f]),
        st_console := st_console st @ [snd (fix_event idx k (events ! k))]\<rparr>"
proof -
  let ?A = "map (\<lambda>i. fst (fix_event idx i (events ! i))) [0..<k]"
  have len: "length ?A = k" by simp
  have cur: "st_events st ! k = events ! k"
    unfolding ev using k by (simp add: nth_append)
  have d: "drop k events = events ! k # drop (Suc k) events"
    using k by (simp add: Cons_nth_drop_Suc)
  obtain e out where r: "fix_event idx k (events ! k) = (e, out)" by (cases "fix_event idx k (events ! k)")
  show ?thesis
  proof (cases "fix_of out")
    case None
    then have "e = events ! k" using fix_event_unchanged [of idx k "events ! k"] r by simp
    then have "st_events st = ?A @ e # drop (Suc k) events" using ev d by simp
    then have e': "map (\<lambda>i. fst (fix_event idx i (events ! i))) [0..<Suc k] @ drop (Suc k) events
        = st_events st" using r by simp
    have "fix_step idx k st = st\<lparr>st_console := st_console st @ [out]\<rparr>"
      using None r cur by (cases out) (simp_all add: fix_step_def)
    then show ?thesis unfolding e' using None r by simp
  next
    case (Some f)
    then have out: "out = Fixed f" by (cases out) simp_all
    have "(st_events st)[k := e] = ?A @ e # drop (Suc k) events"
      unfolding ev d using len by (simp add: list_update_append)
    then have e': "map (\<lambda>i. fst (fix_event idx i (events ! i))) [0..<Suc k] @ drop (Suc k) events
        = (st_events st)[k := e]" using r by simp
    show ?thesis unfolding e' using out r cur by (simp add: fix_step_def)
  qed
qed

lemma fix_loop:
  "k \<le> length events \<Longrightarrow>
   fold (fix_step idx) [0..<k]
     \<lparr>st_events = events, st_fixedCount = 0, st_fixes = [], st_console = []\<rparr>
   = \<lparr>st_events = map (\<lambda>i. fst (fix_event idx i (events ! i))) [0..<k] @ drop k events,
      st_fixedCount = length (List.map_filter (\<lambda>i. fix_of (snd (fix_event idx i (events ! i)))) [0..<k]),
      st_fixes = List.map_filter (\<lambda>i. fix_of (snd (fix_event idx i (events ! i)))) [0..<k],
      st_console = map (\<lambda>i. snd (fix_event idx i (events ! i))) [0..<k]\<rparr>"
proof (induction k)
  case 0
  show ?case by (simp add: List.map_filter_def)
next
  case (Suc k)
  let ?st = "fold (fix_step idx) [0..<k]
     \<lparr>st_events = events, st_fixedCount = 0, st_fixes = [], st_console = []\<rparr>"
  have st: "?st = \<lparr>st_events = map (\<lambda>i. fst (fix_event idx i (events ! i))) [0..<k] @ drop k events,
      st_fixedCount = length (List.map_filter (\<lambda>i. fix_of (snd (fix_event idx i (events ! i)))) [0..<k]),
      st_fixes = List.map_filter (\<lambda>i. fix_of (snd (fix_event idx i (events ! i)))) [0..<k],
      st_console = map (\<lambda>i. snd (fix_event idx i (events ! i))) [0..<k]\<rparr>"
    using Suc by simp
  have "fold (fix_step idx) [0..<Suc k]
     \<lparr>st_events = events, st_fixedCount = 0, st_fixes = [], st_console = []\<rparr>
      = fix_step idx k ?st" by simp
  also have "\<dots> = ?st\<lparr>st_events := map (\<lambda>i. fst (fix_event idx i (events ! i))) [0..<Suc k] @ drop (Suc k) events,
        st_fixedCount := st_fixedCount ?st
           + length (case fix_of (snd (fix_event idx k (events ! k))) of None \<Rightarrow> [] | Some f \<Rightarrow> [f]),
        st_fixes := st_fixes ?st
           @ (case fix_of (snd (fix_event idx k (events ! k))) of None \<Rightarrow> [] | Some f \<Rightarrow> [f]),
        st_console := st_console ?st @ [snd (fix_event idx k (events ! k))]\<rparr>"
    using Suc.prems st by (intro fix_step_result) simp_all
  also have "\<dots> = \<lparr>st_events = map (\<lambda>i. fst (fix_event idx i (events ! i))) [0..<Suc k] @ drop (Suc k) events,
      st_fixedCount = length (List.map_filter (\<lambda>i. fix_of (snd (fix_event idx i (events ! i)))) [0..<Suc k]),
      st_fixes = List.map_filter (\<lambda>i. fix_of (snd (fix_event idx i (events ! i)))) [0..<Suc k],
      st_console = map (\<lambda>i. snd (fix_event idx i (events ! i))) [0..<Suc k]\<rparr>"
    unfolding st by (simp add: map_filter_snoc)
  finally show ?case .
qed

lemma set_map_filter: "set (List.map_filter g xs) = {y. \<exists>x\<in>set xs. g x = Some y}"
  by (induction xs) (auto simp: List.map_filter_def)

lemma map_filter_Nil_iff: "List.map_filter g xs = [] \<longleftrightarrow> (\<forall>x\<in>set xs. g x = None)"
  by (auto simp: List.map_filter_def filter_empty_conv)

lemma fixFacebookLinks_result:
  "fixFacebookLinks events idx =
     \<lparr>fixedCount = length (List.map_filter (\<lambda>i. fix_of (snd (fix_event idx i (events ! i)))) [0..<length events]),
      result_fixes = List.map_filter (\<lambda>i. fix_of (snd (fix_event idx i (events ! i)))) [0..<length events],
      events_json = map (\<lambda>i. fst (fix_event idx i (events ! i))) [0..<length events],
      report_json =
        (if List.map_filter (\<lambda>i. fix_of (snd (fix_event idx i (events ! i)))) [0..<length events] = []
         then None
         else Some (List.map_filter (\<lambda>i. fix_of (snd (fix_event idx i (events ! i)))) [0..<length events])),
      console = map (\<lambda>i. snd (fix_event idx i (events ! i))) [0..<length events]\<rparr>"
proof -
  let ?F = "List.map_filter (\<lambda>i. fix_of (snd (fix_event idx i (events ! i)))) [0..<length events]"
  have same: "map (\<lambda>i. fst (fix_event idx i (events ! i))) [0..<length events] = events" if "?F = []"
  proof (rule nth_equalityI)
    show "length (map (\<lambda>i. fst (fix_event idx i (events ! i))) [0..<length events]) = length events"
      by simp
  next
    fix i
    assume "i < length (map (\<lambda>i. fst (fix_event idx i (events ! i))) [0..<length events])"
    then have i: "i < length events" by simp
    then have "fix_of (snd (fix_event idx i (events ! i))) = None"
      using that by (simp add: map_filter_Nil_iff)
    then show "map (\<lambda>i. fst (fix_event idx i (events ! i))) [0..<length events] ! i = events ! i"
      using i fix_event_unchanged by simp
  qed
  show ?thesis
    unfolding fixFacebookLinks_def Let_def fix_loop [OF le_refl]
    using same by auto
qed

subsection \<open>The index built from the raw files\<close>

lemma match_txt_digits: "match_txt file = Some d \<Longrightarrow> d \<noteq> [] \<and> list_all is_digit d"
  by (auto simp: match_txt_def Let_def list_all_iff split: if_splits dest: set_takeWhileD)

lemma keys_object_insert: "set (map fst (object_insert obj k v)) = insert k (set (map fst obj))"
  by (induction obj k v rule: object_insert.induct) auto

lemma distinct_object_insert:
  "distinct (map fst obj) \<Longrightarrow> k \<notin> set (map fst obj) \<Longrightarrow> distinct (map fst (object_insert obj k v))"
proof (induction obj k v rule: object_insert.induct)
  case (1 k v)
  show ?case by simp
next
  case (2 k' v' obj k v)
  then show ?case using keys_object_insert [of obj k v] by auto
qed

lemma keys_object_update:
  "map fst (map (\<lambda>(k', v'). if k' = k then (k', v) else (k', v')) obj) = map fst obj"
  by (induction obj) auto

lemma index_ok_object_set:
  assumes "index_ok obj" and "k \<noteq> []" and "list_all is_digit k"
  shows "index_ok (object_set obj k v)"
proof (cases "k \<in> fst ` set obj")
  case True
  then have "object_set obj k v = map (\<lambda>(k', v'). if k' = k then (k', v) else (k', v')) obj"
    by (simp add: object_set_def)
  then have "map fst (object_set obj k v) = map fst obj"
    by (simp only: keys_object_update)
  then show ?thesis using assms(1) unfolding index_ok_def by metis
next
  case False
  then have o: "object_set obj k v = object_insert obj k v"
    by (simp add: object_set_def)
  have nk: "k \<notin> set (map fst obj)" using False by simp
  have d: "distinct (map fst obj)" using assms(1) unfolding index_ok_def by blast
  have "distinct (map fst (object_insert obj k v))"
    using d nk by (rule distinct_object_insert)
  moreover have "\<forall>k'\<in>set (map fst (object_insert obj k v)). k' \<noteq> [] \<and> list_all is_digit k'"
    unfolding keys_object_insert using assms by (simp only: index_ok_def) blast
  ultimately show ?thesis unfolding o index_ok_def by blast
qed

lemma index_ok_fold:
  "index_ok acc \<Longrightarrow>
   index_ok (fold (\<lambda>(file, content) index.
             case match_txt file of
               None \<Rightarrow> index
             | Some eventId \<Rightarrow>
                 (case content of
                    None \<Rightarrow> index
                  | Some raw \<Rightarrow>
                      (case extractEventNameFromRaw raw of
                         None \<Rightarrow> index
                       | Some eventName \<Rightarrow>
                           if eventName = [] then index
                           else object_set index eventId
                                  \<lparr>raw_eventId = eventId, raw_eventName = eventName,
                                   normalizedName = normalizeEventName eventName\<rparr>)))
          files acc)"
proof (induction files arbitrary: acc)
  case Nil
  then show ?case by simp
next
  case (Cons x files)
  obtain fname content where x: "x = (fname, content)" by (cases x)
  show ?case unfolding x fold_simps
    by (rule Cons.IH)
       (auto simp: Cons.prems split: option.splits intro!: index_ok_object_set dest: match_txt_digits)
qed

lemma index_ok_buildRawEventIndex: "index_ok (buildRawEventIndex files)"
  unfolding buildRawEventIndex_def by (rule index_ok_fold) (simp add: index_ok_def)

lemma object_get_nth:
  "index_ok idx \<Longrightarrow> p < length idx \<Longrightarrow> object_get idx (fst (idx ! p)) = Some (snd (idx ! p))"
  by (simp add: index_ok_def object_get_def)

lemma index_key_digits:
  "index_ok idx \<Longrightarrow> p < length idx \<Longrightarrow> fst (idx ! p) \<noteq> [] \<and> list_all is_digit (fst (idx ! p))"
  by (simp add: index_ok_def)

lemma takeWhile_all: "list_all P xs \<Longrightarrow> takeWhile P xs = xs"
  by (simp add: list_all_iff)

lemma match_events_id_new_link:
  assumes "k \<noteq> []" and "list_all is_digit k"
  shows "match_events_id (''https://www.facebook.com/events/'' @ k) = Some k"
  using assms by (simp add: takeWhile_all)


subsection \<open>A record and the result of the run\<close>

lemma events_json_nth:
  "i < length events \<Longrightarrow>
   events_json (fixFacebookLinks events idx) ! i = fst (fix_event idx i (events ! i))"
  by (simp add: fixFacebookLinks_result)

lemma length_events_json: "length (events_json (fixFacebookLinks events idx)) = length events"
  by (simp add: fixFacebookLinks_result)

lemma console_nth:
  "i < length events \<Longrightarrow>
   console (fixFacebookLinks events idx) ! i = snd (fix_event idx i (events ! i))"
  by (simp add: fixFacebookLinks_result)

lemma fix_of_Some: "fix_of out = Some f \<longleftrightarrow> out = Fixed f"
  by (cases out) auto

lemma fixes_of_record:
  assumes "i < length events"
  shows "(f \<in> set (result_fixes (fixFacebookLinks events idx)) \<and> eventIndex f = i + 1)
     \<longleftrightarrow> snd (fix_event idx i (events ! i)) = Fixed f"
proof
  assume a: "f \<in> set (result_fixes (fixFacebookLinks events idx)) \<and> eventIndex f = i + 1"
  then obtain j where j: "j < length events" "snd (fix_event idx j (events ! j)) = Fixed f"
    by (auto simp: fixFacebookLinks_result set_map_filter fix_of_Some)
  then have "eventIndex f = j + 1" by (simp add: fix_event_eventIndex)
  then have "j = i" using a by simp
  then show "snd (fix_event idx i (events ! i)) = Fixed f" using j by simp
next
  assume a: "snd (fix_event idx i (events ! i)) = Fixed f"
  then have "f \<in> set (result_fixes (fixFacebookLinks events idx))"
    using assms by (auto simp: fixFacebookLinks_result set_map_filter fix_of_Some)
  then show "f \<in> set (result_fixes (fixFacebookLinks events idx)) \<and> eventIndex f = i + 1"
    using a by (simp add: fix_event_eventIndex)
qed

lemma no_fix_of_record:
  assumes "i < length events" and "fix_of (snd (fix_event idx i (events ! i))) = None"
  shows "\<forall>f\<in>set (result_fixes (fixFacebookLinks events idx)). eventIndex f \<noteq> i + 1"
proof
  fix f
  assume f: "f \<in> set (result_fixes (fixFacebookLinks events idx))"
  show "eventIndex f \<noteq> i + 1"
  proof
    assume "eventIndex f = i + 1"
    then have "snd (fix_event idx i (events ! i)) = Fixed f"
      using f fixes_of_record [OF assms(1)] by blast
    then show False using assms(2) by simp
  qed
qed

lemma fixedCount_length:
  "fixedCount (fixFacebookLinks events idx) = length (result_fixes (fixFacebookLinks events idx))"
  by (simp add: fixFacebookLinks_result)

lemma fix_event_Fixed_cases:
  assumes "snd (fix_event idx i ev) = Fixed f"
  obtains c cur m link where "currentEventId ev = Some c" "object_get idx c = Some cur"
    "calculateSimilarity (normalizeEventName (name ev)) (normalizedName cur) < 7 / 10"
    "findCorrectEventId (name ev) idx = Some m" "match_eventId m \<noteq> c" "fbLink ev = Some link"
proof -
  from assms have "\<exists>c cur m link. currentEventId ev = Some c \<and> object_get idx c = Some cur
    \<and> calculateSimilarity (normalizeEventName (name ev)) (normalizedName cur) < 7 / 10
    \<and> findCorrectEventId (name ev) idx = Some m \<and> match_eventId m \<noteq> c \<and> fbLink ev = Some link"
    by (auto simp: fix_event_def currentEventId_def Let_def split: option.splits if_splits)
  then show ?thesis using that by blast
qed

lemma fix_of_independent_of_position:
  "fix_of (snd (fix_event idx i ev)) = None \<Longrightarrow> fix_of (snd (fix_event idx j ev)) = None"
  by (auto simp: fix_event_def Let_def split: option.splits if_splits)

lemma second_pass_accepts:
  assumes ok: "index_ok idx" and fx: "snd (fix_event idx i ev) = Fixed f"
  shows "snd (fix_event idx j (fst (fix_event idx i ev))) = LinkCorrect"
proof -
  from fx obtain c cur m link where h: "currentEventId ev = Some c" "object_get idx c = Some cur"
    "calculateSimilarity (normalizeEventName (name ev)) (normalizedName cur) < 7 / 10"
    "findCorrectEventId (name ev) idx = Some m" "match_eventId m \<noteq> c" "fbLink ev = Some link"
    by (rule fix_event_Fixed_cases)
  let ?ev' = "ev\<lparr>fbLink := Some (''https://www.facebook.com/events/'' @ match_eventId m)\<rparr>"
  have ev': "fst (fix_event idx i ev) = ?ev'"
    using fix_event_Fixed [OF h] by simp
  from findCorrectEventId_Some [OF h(4)] obtain p where p: "p < length idx"
    "match_eventId m = fst (idx ! p)"
    "calculateSimilarity (normalizeEventName (name ev)) (normalizedName (snd (idx ! p))) > 7 / 10"
    by auto
  have k: "match_eventId m \<noteq> []" "list_all is_digit (match_eventId m)"
    using index_key_digits [OF ok p(1)] p(2) by simp_all
  have "match_events_id (''https://www.facebook.com/events/'' @ match_eventId m) = Some (match_eventId m)"
    using k by (rule match_events_id_new_link)
  then have c': "currentEventId ?ev' = Some (match_eventId m)"
    by (simp add: currentEventId_def)
  have g: "object_get idx (match_eventId m) = Some (snd (idx ! p))"
    using object_get_nth [OF ok p(1)] p(2) by simp
  have "calculateSimilarity (normalizeEventName (name ?ev')) (normalizedName (snd (idx ! p))) \<ge> 7 / 10"
    using p(3) by simp
  then have "fix_event idx j ?ev' = (?ev', LinkCorrect)"
    using c' g by (intro fix_event_LinkCorrect)
  then show ?thesis using ev' by simp
qed

text \<open>
  Claim C9: on the catalog left by a run of \<open>fixFacebookLinks\<close>, with the index built
  from the same raw files, a second run corrects nothing.
\<close>

theorem second_run_fixes_nothing:
  "fixedCount (fixFacebookLinks (events_json (fixFacebookLinks events (buildRawEventIndex files)))
                 (buildRawEventIndex files)) = 0
   \<and> result_fixes (fixFacebookLinks (events_json (fixFacebookLinks events (buildRawEventIndex files)))
                 (buildRawEventIndex files)) = []"
proof -
  let ?idx = "buildRawEventIndex files"
  let ?ev1 = "events_json (fixFacebookLinks events ?idx)"
  have ok: "index_ok ?idx" by (rule index_ok_buildRawEventIndex)
  have "fix_of (snd (fix_event ?idx i (?ev1 ! i))) = None" if i: "i < length ?ev1" for i
  proof -
    have i': "i < length events" using i by (simp add: length_events_json)
    then have e: "?ev1 ! i = fst (fix_event ?idx i (events ! i))" by (rule events_json_nth)
    show ?thesis
    proof (cases "fix_of (snd (fix_event ?idx i (events ! i)))")
      case None
      then have "fst (fix_event ?idx i (events ! i)) = events ! i" by (rule fix_event_unchanged)
      then show ?thesis using None e by simp
    next
      case (Some f)
      then have "snd (fix_event ?idx i (events ! i)) = Fixed f" by (simp add: fix_of_Some)
      then have "snd (fix_event ?idx i (fst (fix_event ?idx i (events ! i)))) = LinkCorrect"
        using ok by (intro second_pass_accepts)
      then show ?thesis using e by simp
    qed
  qed
  then have "result_fixes (fixFacebookLinks ?ev1 ?idx) = []"
    by (simp add: fixFacebookLinks_result map_filter_Nil_iff)
  then show ?thesis by (simp add: fixedCount_length)
qed

subsection \<open>Acceptance, search and correction\<close>

lemma findCorrectEventId_empty_target:
  "normalizeEventName nm = [] \<Longrightarrow> findCorrectEventId nm idx = None"
  by (simp add: findCorrectEventId_None_iff calculateSimilarity_empty)

text \<open>
  When the reference id of a catalog record resolves in the index and the normalized
  name of the record equals the \<open>normalizedName\<close> of the indexed entry, the run leaves
  the record as it is and produces no fix entry for it; the computed similarity is 1
  whenever that normalized name is not empty.
\<close>

lemma equal_normalized_names_no_correction:
  assumes "i < length events"
    and "currentEventId (events ! i) = Some c"
    and "object_get idx c = Some cur"
    and "normalizeEventName (name (events ! i)) = normalizedName cur"
  shows "events_json (fixFacebookLinks events idx) ! i = events ! i
    \<and> (\<forall>f\<in>set (result_fixes (fixFacebookLinks events idx)). eventIndex f \<noteq> i + 1)
    \<and> (normalizedName cur \<noteq> [] \<longrightarrow>
         calculateSimilarity (normalizeEventName (name (events ! i))) (normalizedName cur) = 1)"
proof -
  let ?ev = "events ! i"
  let ?s = "calculateSimilarity (normalizeEventName (name ?ev)) (normalizedName cur)"
  have one: "?s = 1" if "normalizedName cur \<noteq> []"
    using that assms(4) by (simp add: calculateSimilarity_nonempty edit_distance_refl)
  have "snd (fix_event idx i ?ev) = LinkCorrect \<or> snd (fix_event idx i ?ev) = NoGoodMatch"
  proof (cases "normalizedName cur = []")
    case True
    then have "?s < 7 / 10" using assms(4) by (simp add: calculateSimilarity_empty)
    moreover have "findCorrectEventId (name ?ev) idx = None"
      using True assms(4) by (simp add: findCorrectEventId_empty_target)
    ultimately show ?thesis
      using fix_event_NoGoodMatch [OF assms(2,3)] by simp
  next
    case False
    then have "?s \<ge> 7 / 10" using one by simp
    then show ?thesis using fix_event_LinkCorrect [OF assms(2,3)] by simp
  qed
  then have n: "fix_of (snd (fix_event idx i ?ev)) = None" by auto
  then have "fst (fix_event idx i ?ev) = ?ev" by (rule fix_event_unchanged)
  then show ?thesis
    using one no_fix_of_record [OF assms(1) n] events_json_nth [OF assms(1), of idx] by simp
qed

text \<open>
  A record and an index entry that differ in case and in the year only: the
  normalized names are equal, the similarity is 1 and nothing is corrected.
\<close>

lemma equal_normalized_names_no_correction_example:
  "0 < length year_catalog
   \<and> currentEventId (year_catalog ! 0) = Some ''1''
   \<and> object_get year_index ''1'' = Some (snd (year_index ! 0))
   \<and> normalizeEventName (name (year_catalog ! 0)) = normalizedName (snd (year_index ! 0))
   \<and> normalizedName (snd (year_index ! 0)) = ''dhaka run 2025''
   \<and> calculateSimilarity (normalizeEventName (name (year_catalog ! 0)))
         (normalizedName (snd (year_index ! 0))) = 1
   \<and> events_json (fixFacebookLinks year_catalog year_index) ! 0 = year_catalog ! 0
   \<and> result_fixes (fixFacebookLinks year_catalog year_index) = []"
proof -
  have h: "0 < length year_catalog"
    "currentEventId (year_catalog ! 0) = Some ''1''"
    "object_get year_index ''1'' = Some (snd (year_index ! 0))"
    "normalizeEventName (name (year_catalog ! 0)) = normalizedName (snd (year_index ! 0))"
    by code_simp+
  have v: "normalizedName (snd (year_index ! 0)) = ''dhaka run 2025''"
    "result_fixes (fixFacebookLinks year_catalog year_index) = []"
    by code_simp+
  show ?thesis
    using h v equal_normalized_names_no_correction [OF h] by simp
qed

text \<open>
  Claim C5 does not hold of the code where both normalized names are empty. The index
  built from the one file of \<open>sponsor_files\<close> is \<open>sponsor_index\<close>, whose entry 7 has
  the name \<^verbatim>\<open>Sponsored by Acme Corp\<close>; the record \<^verbatim>\<open>Powered by Acme\<close> refers to it.
  Both names normalize to the empty string, so the normalized names are equal, and
  \<open>calculateSimilarity\<close> returns 0 for them from its test \<^verbatim>\<open>!str1 || !str2\<close>, not the
  1.0 of its own branch for \<^verbatim>\<open>longer.length === 0\<close>, which that test makes
  unreachable. The run reports that it found no good match and leaves the record as it
  is.
\<close>

theorem equal_normalized_names_similarity_zero:
  "buildRawEventIndex sponsor_files = sponsor_index
   \<and> currentEventId (sponsor_catalog ! 0) = Some ''7''
   \<and> object_get sponsor_index ''7'' = Some (snd (sponsor_index ! 0))
   \<and> normalizeEventName (name (sponsor_catalog ! 0)) = normalizedName (snd (sponsor_index ! 0))
   \<and> normalizedName (snd (sponsor_index ! 0)) = []
   \<and> calculateSimilarity (normalizeEventName (name (sponsor_catalog ! 0)))
         (normalizedName (snd (sponsor_index ! 0))) = 0
   \<and> calculateSimilarity [] [] = 0
   \<and> console (fixFacebookLinks sponsor_catalog sponsor_index) = [NoGoodMatch]
   \<and> events_json (fixFacebookLinks sponsor_catalog sponsor_index) = sponsor_catalog
   \<and> result_fixes (fixFacebookLinks sponsor_catalog sponsor_index) = []"
  by code_simp

text \<open>
  Claim C6, as amended. \<open>findCorrectEventId\<close> returns null exactly when no entry of the
  index has a similarity above 0.7 to the normalized target name; otherwise it returns
  the first entry, in the iteration order of the index, among those of greatest
  similarity. For a record that reaches the search (its reference id resolves in the
  index, with a similarity below 0.7), the run emits a correction exactly when the
  search returns a candidate whose id differs from the current one: it then rewrites
  \<open>fbLink\<close> and records the fix, and leaves the record as it is otherwise. A record
  whose current link is accepted (a similarity of 0.7 or more), and a record without a
  reference that resolves in the index (no link, no id in the link, or an id that the
  index does not have), is never corrected: it stays as it is and gets no fix entry.
\<close>

theorem search_and_correction:
  "(findCorrectEventId nm idx = None \<longleftrightarrow>
      (\<forall>x\<in>set idx. calculateSimilarity (normalizeEventName nm) (normalizedName (snd x)) \<le> 7 / 10))
   \<and> (\<forall>m. findCorrectEventId nm idx = Some m \<longrightarrow>
        (\<exists>p<length idx.
           m = \<lparr>match_eventId = fst (idx ! p), match_eventName = raw_eventName (snd (idx ! p)),
                match_similarity =
                  calculateSimilarity (normalizeEventName nm) (normalizedName (snd (idx ! p)))\<rparr>
           \<and> calculateSimilarity (normalizeEventName nm) (normalizedName (snd (idx ! p))) > 7 / 10
           \<and> (\<forall>q<length idx.
                 calculateSimilarity (normalizeEventName nm) (normalizedName (snd (idx ! q)))
                   \<le> calculateSimilarity (normalizeEventName nm) (normalizedName (snd (idx ! p))))
           \<and> (\<forall>q<p.
                 calculateSimilarity (normalizeEventName nm) (normalizedName (snd (idx ! q)))
                   < calculateSimilarity (normalizeEventName nm) (normalizedName (snd (idx ! p))))))
   \<and> (i < length events \<and> currentEventId (events ! i) = Some c \<and> object_get idx c = Some cur
        \<and> calculateSimilarity (normalizeEventName (name (events ! i))) (normalizedName cur) < 7 / 10
       \<longrightarrow>
        ((\<exists>f\<in>set (result_fixes (fixFacebookLinks events idx)). eventIndex f = i + 1)
           \<longleftrightarrow> (\<exists>m. findCorrectEventId (name (events ! i)) idx = Some m \<and> match_eventId m \<noteq> c))
        \<and> (\<forall>m. findCorrectEventId (name (events ! i)) idx = Some m \<and> match_eventId m \<noteq> c \<longrightarrow>
              fbLink (events_json (fixFacebookLinks events idx) ! i)
                = Some (''https://www.facebook.com/events/'' @ match_eventId m)
              \<and> (\<exists>f\<in>set (result_fixes (fixFacebookLinks events idx)).
                    eventIndex f = i + 1 \<and> oldEventId f = c \<and> newEventId f = match_eventId m
                    \<and> similarity f = match_similarity m
                    \<and> newLink f = ''https://www.facebook.com/events/'' @ match_eventId m))
        \<and> (\<not> (\<exists>m. findCorrectEventId (name (events ! i)) idx = Some m \<and> match_eventId m \<noteq> c) \<longrightarrow>
              events_json (fixFacebookLinks events idx) ! i = events ! i))
   \<and> (i < length events \<and> currentEventId (events ! i) = Some c \<and> object_get idx c = Some cur
        \<and> calculateSimilarity (normalizeEventName (name (events ! i))) (normalizedName cur) \<ge> 7 / 10
       \<longrightarrow>
        events_json (fixFacebookLinks events idx) ! i = events ! i
        \<and> (\<forall>f\<in>set (result_fixes (fixFacebookLinks events idx)). eventIndex f \<noteq> i + 1))
   \<and> (i < length events
        \<and> (currentEventId (events ! i) = None
            \<or> currentEventId (events ! i) = Some c \<and> object_get idx c = None)
       \<longrightarrow>
        events_json (fixFacebookLinks events idx) ! i = events ! i
        \<and> (\<forall>f\<in>set (result_fixes (fixFacebookLinks events idx)). eventIndex f \<noteq> i + 1))"
proof (intro conjI allI impI)
  show "findCorrectEventId nm idx = None \<longleftrightarrow>
      (\<forall>x\<in>set idx. calculateSimilarity (normalizeEventName nm) (normalizedName (snd x)) \<le> 7 / 10)"
    by (rule findCorrectEventId_None_iff)
next
  fix m
  assume "findCorrectEventId nm idx = Some m"
  then show "\<exists>p<length idx.
           m = \<lparr>match_eventId = fst (idx ! p), match_eventName = raw_eventName (snd (idx ! p)),
                match_similarity =
                  calculateSimilarity (normalizeEventName nm) (normalizedName (snd (idx ! p)))\<rparr>
           \<and> calculateSimilarity (normalizeEventName nm) (normalizedName (snd (idx ! p))) > 7 / 10
           \<and> (\<forall>q<length idx.
                 calculateSimilarity (normalizeEventName nm) (normalizedName (snd (idx ! q)))
                   \<le> calculateSimilarity (normalizeEventName nm) (normalizedName (snd (idx ! p))))
           \<and> (\<forall>q<p.
                 calculateSimilarity (normalizeEventName nm) (normalizedName (snd (idx ! q)))
                   < calculateSimilarity (normalizeEventName nm) (normalizedName (snd (idx ! p))))"
    by (rule findCorrectEventId_Some)
next
  assume h: "i < length events \<and> currentEventId (events ! i) = Some c \<and> object_get idx c = Some cur
        \<and> calculateSimilarity (normalizeEventName (name (events ! i))) (normalizedName cur) < 7 / 10"
  let ?ev = "events ! i"
  let ?r = "fixFacebookLinks events idx"
  have i: "i < length events" and c: "currentEventId ?ev = Some c"
    and g: "object_get idx c = Some cur"
    and s: "calculateSimilarity (normalizeEventName (name ?ev)) (normalizedName cur) < 7 / 10"
    using h by simp_all
  obtain link where link: "fbLink ?ev = Some link" using currentEventId_link [OF c] by blast
  have fixed: "fix_event idx i ?ev =
     (?ev\<lparr>fbLink := Some (''https://www.facebook.com/events/'' @ match_eventId m)\<rparr>,
      Fixed \<lparr>eventIndex = i + 1, fix_eventName = name ?ev, oldEventId = c,
             oldEventName = raw_eventName cur, newEventId = match_eventId m,
             newEventName = match_eventName m, similarity = match_similarity m,
             oldLink = link,
             newLink = ''https://www.facebook.com/events/'' @ match_eventId m\<rparr>)"
    if "findCorrectEventId (name ?ev) idx = Some m" "match_eventId m \<noteq> c" for m
    using fix_event_Fixed [OF c g s that link] .
  have none: "fix_event idx i ?ev = (?ev, NoGoodMatch)"
    if "\<not> (\<exists>m. findCorrectEventId (name ?ev) idx = Some m \<and> match_eventId m \<noteq> c)"
  proof -
    have "findCorrectEventId (name ?ev) idx = None
      \<or> (\<exists>m. findCorrectEventId (name ?ev) idx = Some m \<and> match_eventId m = c)"
      using that by (cases "findCorrectEventId (name ?ev) idx") auto
    then show ?thesis by (rule fix_event_NoGoodMatch [OF c g s])
  qed
  show "(\<exists>f\<in>set (result_fixes ?r). eventIndex f = i + 1)
      \<longleftrightarrow> (\<exists>m. findCorrectEventId (name ?ev) idx = Some m \<and> match_eventId m \<noteq> c)"
  proof
    assume "\<exists>f\<in>set (result_fixes ?r). eventIndex f = i + 1"
    then obtain f where "snd (fix_event idx i ?ev) = Fixed f"
      using fixes_of_record [OF i] by blast
    then show "\<exists>m. findCorrectEventId (name ?ev) idx = Some m \<and> match_eventId m \<noteq> c"
      using none by fastforce
  next
    assume "\<exists>m. findCorrectEventId (name ?ev) idx = Some m \<and> match_eventId m \<noteq> c"
    then obtain m where m: "findCorrectEventId (name ?ev) idx = Some m" "match_eventId m \<noteq> c"
      by blast
    then obtain f where "snd (fix_event idx i ?ev) = Fixed f" using fixed by fastforce
    then show "\<exists>f\<in>set (result_fixes ?r). eventIndex f = i + 1"
      using fixes_of_record [OF i] by blast
  qed
  show "events_json ?r ! i = ?ev"
    if "\<not> (\<exists>m. findCorrectEventId (name ?ev) idx = Some m \<and> match_eventId m \<noteq> c)"
    using none [OF that] events_json_nth [OF i, of idx] by simp
  fix m
  assume m: "findCorrectEventId (name ?ev) idx = Some m \<and> match_eventId m \<noteq> c"
  then have f: "fix_event idx i ?ev =
     (?ev\<lparr>fbLink := Some (''https://www.facebook.com/events/'' @ match_eventId m)\<rparr>,
      Fixed \<lparr>eventIndex = i + 1, fix_eventName = name ?ev, oldEventId = c,
             oldEventName = raw_eventName cur, newEventId = match_eventId m,
             newEventName = match_eventName m, similarity = match_similarity m,
             oldLink = link,
             newLink = ''https://www.facebook.com/events/'' @ match_eventId m\<rparr>)"
    using fixed by blast
  show "fbLink (events_json ?r ! i) = Some (''https://www.facebook.com/events/'' @ match_eventId m)"
    using f events_json_nth [OF i, of idx] by simp
  let ?f = "\<lparr>eventIndex = i + 1, fix_eventName = name ?ev, oldEventId = c,
             oldEventName = raw_eventName cur, newEventId = match_eventId m,
             newEventName = match_eventName m, similarity = match_similarity m,
             oldLink = link,
             newLink = ''https://www.facebook.com/events/'' @ match_eventId m\<rparr>"
  have "?f \<in> set (result_fixes ?r) \<and> eventIndex ?f = i + 1"
    using f fixes_of_record [OF i, of ?f idx] by simp
  then show "\<exists>f\<in>set (result_fixes ?r).
      eventIndex f = i + 1 \<and> oldEventId f = c \<and> newEventId f = match_eventId m
      \<and> similarity f = match_similarity m
      \<and> newLink f = ''https://www.facebook.com/events/'' @ match_eventId m"
    by (intro bexI [of _ ?f]) simp_all
next
  assume h: "i < length events \<and> currentEventId (events ! i) = Some c \<and> object_get idx c = Some cur
        \<and> calculateSimilarity (normalizeEventName (name (events ! i))) (normalizedName cur) \<ge> 7 / 10"
  then have "fix_event idx i (events ! i) = (events ! i, LinkCorrect)"
    using fix_event_LinkCorrect [of "events ! i" c idx cur i] by simp
  then have o: "fix_of (snd (fix_event idx i (events ! i))) = None"
    and e: "fst (fix_event idx i (events ! i)) = events ! i"
    by simp_all
  show "events_json (fixFacebookLinks events idx) ! i = events ! i"
    using h e events_json_nth [of i events idx] by simp
  show "\<forall>f\<in>set (result_fixes (fixFacebookLinks events idx)). eventIndex f \<noteq> i + 1"
    using h o by (intro no_fix_of_record) simp_all
next
  assume h: "i < length events
        \<and> (currentEventId (events ! i) = None
            \<or> currentEventId (events ! i) = Some c \<and> object_get idx c = None)"
  then have "fix_event idx i (events ! i) = (events ! i, NoLink)
      \<or> fix_event idx i (events ! i) = (events ! i, RawNotFound)"
    using fix_event_NoLink [of "events ! i" idx i] fix_event_RawNotFound [of "events ! i" c idx i]
    by blast
  then have o: "fix_of (snd (fix_event idx i (events ! i))) = None"
    and e: "fst (fix_event idx i (events ! i)) = events ! i"
    by auto
  show "events_json (fixFacebookLinks events idx) ! i = events ! i"
    using h e events_json_nth [of i events idx] by simp
  show "\<forall>f\<in>set (result_fixes (fixFacebookLinks events idx)). eventIndex f \<noteq> i + 1"
    using h o by (intro no_fix_of_record) simp_all
qed

text \<open>
  A record linked to the wrong entry: the search returns the second entry, the first
  of the two that tie at similarity 1, and the run rewrites the link. A record whose
  link is accepted at similarity 8/9, a record whose id is not in the index and a
  record without a link stay as they are.
\<close>

theorem search_and_correction_witness:
  "0 < length mislinked_catalog
   \<and> currentEventId (mislinked_catalog ! 0) = Some ''1''
   \<and> object_get example_index ''1'' = Some (snd (example_index ! 0))
   \<and> calculateSimilarity (normalizeEventName (name (mislinked_catalog ! 0)))
        (normalizedName (snd (example_index ! 0))) < 7 / 10
   \<and> findCorrectEventId (name (mislinked_catalog ! 0)) example_index
        = Some \<lparr>match_eventId = ''2'', match_eventName = ''Sylhet Run'', match_similarity = 1\<rparr>
   \<and> fbLink (events_json (fixFacebookLinks mislinked_catalog example_index) ! 0)
        = Some ''https://www.facebook.com/events/2''
   \<and> fixedCount (fixFacebookLinks mislinked_catalog example_index) = 1
   \<and> 0 < length near_catalog
   \<and> currentEventId (near_catalog ! 0) = Some ''1''
   \<and> object_get near_index ''1'' = Some (snd (near_index ! 0))
   \<and> calculateSimilarity (normalizeEventName (name (near_catalog ! 0)))
        (normalizedName (snd (near_index ! 0))) \<ge> 7 / 10
   \<and> events_json (fixFacebookLinks near_catalog near_index) ! 0 = near_catalog ! 0
   \<and> 0 < length sponsor_catalog
   \<and> currentEventId (sponsor_catalog ! 0) = Some ''7''
   \<and> object_get near_index ''7'' = None
   \<and> events_json (fixFacebookLinks sponsor_catalog near_index) ! 0 = sponsor_catalog ! 0
   \<and> 0 < length unlinked_catalog
   \<and> currentEventId (unlinked_catalog ! 0) = None
   \<and> events_json (fixFacebookLinks unlinked_catalog near_index) ! 0 = unlinked_catalog ! 0"
proof -
  have h: "0 < length mislinked_catalog \<and> currentEventId (mislinked_catalog ! 0) = Some ''1''
    \<and> object_get example_index ''1'' = Some (snd (example_index ! 0))
    \<and> calculateSimilarity (normalizeEventName (name (mislinked_catalog ! 0)))
        (normalizedName (snd (example_index ! 0))) < 7 / 10"
    by code_simp
  have m: "findCorrectEventId (name (mislinked_catalog ! 0)) example_index
        = Some \<lparr>match_eventId = ''2'', match_eventName = ''Sylhet Run'', match_similarity = 1\<rparr>"
    by code_simp
  have n: "fixedCount (fixFacebookLinks mislinked_catalog example_index) = 1"
    by code_simp
  have a: "0 < length near_catalog \<and> currentEventId (near_catalog ! 0) = Some ''1''
    \<and> object_get near_index ''1'' = Some (snd (near_index ! 0))
    \<and> calculateSimilarity (normalizeEventName (name (near_catalog ! 0)))
        (normalizedName (snd (near_index ! 0))) \<ge> 7 / 10"
    by code_simp
  have u: "0 < length sponsor_catalog \<and> currentEventId (sponsor_catalog ! 0) = Some ''7''
    \<and> object_get near_index ''7'' = None"
    by code_simp
  have l: "0 < length unlinked_catalog \<and> currentEventId (unlinked_catalog ! 0) = None"
    by code_simp
  have "fbLink (events_json (fixFacebookLinks mislinked_catalog example_index) ! 0)
        = Some (''https://www.facebook.com/events/'' @ ''2'')"
    using search_and_correction [of "name (mislinked_catalog ! 0)" example_index 0
        mislinked_catalog "''1''" "snd (example_index ! 0)"] h m
    by simp
  moreover have "events_json (fixFacebookLinks near_catalog near_index) ! 0 = near_catalog ! 0"
    using search_and_correction [of "name (near_catalog ! 0)" near_index 0
        near_catalog "''1''" "snd (near_index ! 0)"] a
    by simp
  moreover have "events_json (fixFacebookLinks sponsor_catalog near_index) ! 0
      = sponsor_catalog ! 0"
    using search_and_correction [of "name (sponsor_catalog ! 0)" near_index 0
        sponsor_catalog "''7''"] u
    by simp
  moreover have "events_json (fixFacebookLinks unlinked_catalog near_index) ! 0
      = unlinked_catalog ! 0"
    using search_and_correction [of "name (unlinked_catalog ! 0)" near_index 0
        unlinked_catalog] l
    by simp
  ultimately show ?thesis using h m n a u l by simp
qed

text \<open>
  Claim C6 as stated fails for a record whose current link is accepted: the link of
  \<^verbatim>\<open>Dhaka Run\<close> points at \<^verbatim>\<open>Dhaka Fun\<close>, similarity 8/9, so the search is never
  made and nothing is corrected, although the entry \<^verbatim>\<open>Dhaka Run\<close> with a different
  id has similarity 1.
\<close>

theorem search_and_correction_counterexample:
  "currentEventId (near_catalog ! 0) = Some ''1''
   \<and> calculateSimilarity (normalizeEventName (name (near_catalog ! 0)))
        (normalizedName (snd (near_index ! 0))) = 8 / 9
   \<and> findCorrectEventId (name (near_catalog ! 0)) near_index
        = Some \<lparr>match_eventId = ''2'', match_eventName = ''Dhaka Run'', match_similarity = 1\<rparr>
   \<and> result_fixes (fixFacebookLinks near_catalog near_index) = []
   \<and> events_json (fixFacebookLinks near_catalog near_index) = near_catalog"
  by code_simp

text \<open>
  Claim C7, as amended: a record that reaches the search and for which no entry passes
  the floor keeps its reference, and the run records no fix for it: it is absent from
  the fixes and from the report written from them; the only trace of the mismatch is
  the message on the console.
\<close>

theorem mismatch_left_out_of_report:
  assumes "i < length events"
    and "currentEventId (events ! i) = Some c"
    and "object_get idx c = Some cur"
    and "calculateSimilarity (normalizeEventName (name (events ! i))) (normalizedName cur) < 7 / 10"
    and "findCorrectEventId (name (events ! i)) idx = None"
  shows "events_json (fixFacebookLinks events idx) ! i = events ! i
    \<and> (\<forall>f\<in>set (result_fixes (fixFacebookLinks events idx)). eventIndex f \<noteq> i + 1)
    \<and> (\<forall>report. report_json (fixFacebookLinks events idx) = Some report \<longrightarrow>
          (\<forall>f\<in>set report. eventIndex f \<noteq> i + 1))
    \<and> console (fixFacebookLinks events idx) ! i = NoGoodMatch"
proof -
  have r: "fix_event idx i (events ! i) = (events ! i, NoGoodMatch)"
    using assms(5) by (intro fix_event_NoGoodMatch [OF assms(2,3,4)]) simp
  then have n: "fix_of (snd (fix_event idx i (events ! i))) = None" by simp
  have a: "\<forall>f\<in>set (result_fixes (fixFacebookLinks events idx)). eventIndex f \<noteq> i + 1"
    using assms(1) n by (rule no_fix_of_record)
  have b: "report = result_fixes (fixFacebookLinks events idx)"
    if "report_json (fixFacebookLinks events idx) = Some report" for report
    using that by (simp add: fixFacebookLinks_result split: if_splits)
  show ?thesis
    using r a b events_json_nth [OF assms(1), of idx] console_nth [OF assms(1), of idx]
    by auto
qed

text \<open>A record with no entry above the floor: nothing is written about it.\<close>

theorem mismatch_left_out_of_report_witness:
  "0 < length mislinked_catalog
   \<and> currentEventId (mislinked_catalog ! 0) = Some ''1''
   \<and> object_get lonely_index ''1'' = Some (snd (lonely_index ! 0))
   \<and> calculateSimilarity (normalizeEventName (name (mislinked_catalog ! 0)))
        (normalizedName (snd (lonely_index ! 0))) < 7 / 10
   \<and> findCorrectEventId (name (mislinked_catalog ! 0)) lonely_index = None
   \<and> events_json (fixFacebookLinks mislinked_catalog lonely_index) ! 0 = mislinked_catalog ! 0
   \<and> console (fixFacebookLinks mislinked_catalog lonely_index) ! 0 = NoGoodMatch"
proof -
  have h: "0 < length mislinked_catalog"
    "currentEventId (mislinked_catalog ! 0) = Some ''1''"
    "object_get lonely_index ''1'' = Some (snd (lonely_index ! 0))"
    "calculateSimilarity (normalizeEventName (name (mislinked_catalog ! 0)))
        (normalizedName (snd (lonely_index ! 0))) < 7 / 10"
    "findCorrectEventId (name (mislinked_catalog ! 0)) lonely_index = None"
    by code_simp+
  show ?thesis
    using h mismatch_left_out_of_report [OF h] by simp
qed

text \<open>
  Claim C7 as stated fails: for the same record the run returns no fix and writes no
  report at all, so the audit log says nothing of the mismatch.
\<close>

theorem mismatch_left_out_of_report_counterexample:
  "findCorrectEventId (name (mislinked_catalog ! 0)) lonely_index = None
   \<and> console (fixFacebookLinks mislinked_catalog lonely_index) = [NoGoodMatch]
   \<and> result_fixes (fixFacebookLinks mislinked_catalog lonely_index) = []
   \<and> report_json (fixFacebookLinks mislinked_catalog lonely_index) = None"
  by code_simp

section \<open>Properties of the consistency checker\<close>

subsection \<open>Sets and maps in insertion order\<close>

lemma set_set_add: "set (set_add s x) = insert x (set s)"
  by (auto simp: set_add_def)

lemma distinct_set_add: "distinct s \<Longrightarrow> distinct (set_add s x)"
  by (simp add: set_add_def)

lemma fold_set_add:
  "set (fold (\<lambda>x s. set_add s x) xs acc) = set xs \<union> set acc
   \<and> (distinct acc \<longrightarrow> distinct (fold (\<lambda>x s. set_add s x) xs acc))"
  by (induction xs arbitrary: acc) (auto simp: set_set_add distinct_set_add)

lemma set_new_Set: "set (new_Set xs) = set xs"
  using fold_set_add [of xs "[]"] by (simp add: new_Set_def)

lemma distinct_new_Set: "distinct (new_Set xs)"
  using fold_set_add [of xs "[]"] by (simp add: new_Set_def)

lemma fold_readRawEventIds:
  "set (fold (\<lambda>f ids. case match_txt f of Some d \<Rightarrow> set_add ids d | None \<Rightarrow> ids) files acc)
     = {d. \<exists>f\<in>set files. match_txt f = Some d} \<union> set acc
   \<and> (distinct acc \<longrightarrow>
        distinct (fold (\<lambda>f ids. case match_txt f of Some d \<Rightarrow> set_add ids d | None \<Rightarrow> ids) files acc))"
proof (induction files arbitrary: acc)
  case Nil
  show ?case by simp
next
  case (Cons f files)
  show ?case
  proof (cases "match_txt f")
    case None
    then show ?thesis using Cons [of acc] by auto
  next
    case (Some d)
    then show ?thesis
      using Cons [of "set_add acc d"] by (auto simp: set_set_add distinct_set_add)
  qed
qed

lemma set_readRawEventIds:
  "set (readRawEventIds files) = {d. \<exists>f\<in>set files. match_txt f = Some d}"
  using fold_readRawEventIds [of files "[]"] by (simp add: readRawEventIds_def)

lemma distinct_readRawEventIds: "distinct (readRawEventIds files)"
  using fold_readRawEventIds [of files "[]"] by (simp add: readRawEventIds_def)

lemma map_of_update_in_place:
  "map_of (map (\<lambda>(k', v'). if k' = k then (k', v) else (k', v')) m) x
     = (if x = k \<and> k \<in> fst ` set m then Some v else map_of m x)"
proof (induction m)
  case Nil
  show ?case by simp
next
  case (Cons p m)
  obtain a b where p: "p = (a, b)" by (cases p)
  show ?case unfolding p using Cons by (cases "a = k") (force simp: image_iff)+
qed

lemma map_of_map_set:
  "map_of (map_set m k v) = (map_of m)(k \<mapsto> v)"
proof (cases "k \<in> fst ` set m")
  case True
  then show ?thesis
    by (auto simp: map_set_def map_of_update_in_place fun_eq_iff)
next
  case False
  then have "map_of m k = None" by (simp add: map_of_eq_None_iff)
  then show ?thesis using False
    by (auto simp: map_set_def map_add_def fun_eq_iff split: option.splits)
qed

lemma keys_map_set_update:
  "k \<in> fst ` set m \<Longrightarrow> map fst (map_set m k v) = map fst m"
proof -
  assume "k \<in> fst ` set m"
  then have "map_set m k v = map (\<lambda>(k', v'). if k' = k then (k', v) else (k', v')) m"
    by (simp add: map_set_def)
  then show ?thesis by (simp only: keys_object_update)
qed

lemma distinct_map_set:
  assumes "distinct (map fst m)"
  shows "distinct (map fst (map_set m k v))"
proof (cases "k \<in> fst ` set m")
  case True
  then show ?thesis using assms by (simp only: keys_map_set_update)
next
  case False
  then show ?thesis using assms by (simp add: map_set_def)
qed

subsection \<open>The ids of the catalog and their counts\<close>

lemma count_list_snoc: "count_list (xs @ [x]) y = count_list xs y + (if x = y then 1 else 0)"
  by (induction xs) auto

lemma count_list_pos: "0 < count_list xs x \<longleftrightarrow> x \<in> set xs"
  by (induction xs) auto

lemma counted_step:
  assumes "counted (ids, occ)"
  shows "counted (ids @ [k],
     map_set occ k ((case map_of occ k of None \<Rightarrow> 0 | Some n \<Rightarrow> if n = 0 then 0 else n) + 1))"
proof -
  have d: "distinct (map fst occ)"
    and m: "\<And>x. map_of occ x = (if x \<in> set ids then Some (count_list ids x) else None)"
    using assms by (simp_all add: counted_def)
  have v: "(case map_of occ k of None \<Rightarrow> 0 | Some n \<Rightarrow> if n = 0 then 0 else n) = count_list ids k"
    using m [of k] count_list_pos [of ids k] by (auto split: option.splits)
  show ?thesis
    unfolding counted_def v using d m
    by (auto simp: map_of_map_set distinct_map_set count_list_snoc)
qed

lemma fold_extract:
  "counted acc \<Longrightarrow>
   counted (fold (\<lambda>evt (allIds, occurrences).
             case event_id evt of
               None \<Rightarrow> (allIds, occurrences)
             | Some eid \<Rightarrow>
                 (allIds @ [eid],
                  map_set occurrences eid
                    ((case map_of occurrences eid of
                        None \<Rightarrow> 0
                      | Some n \<Rightarrow> if n = 0 then 0 else n) + 1)))
          events acc)"
proof (induction events arbitrary: acc)
  case Nil
  then show ?case by simp
next
  case (Cons evt events)
  obtain ids occ where acc: "acc = (ids, occ)" by (cases acc)
  show ?case
  proof (cases "event_id evt")
    case None
    then show ?thesis using Cons acc by simp
  next
    case (Some k)
    have "counted (ids @ [k],
       map_set occ k ((case map_of occ k of None \<Rightarrow> 0 | Some n \<Rightarrow> if n = 0 then 0 else n) + 1))"
      using Cons.prems acc by (intro counted_step) simp
    then show ?thesis using Cons.IH Some acc by simp
  qed
qed

lemma counted_extractIdsFromEvents: "counted (extractIdsFromEvents events)"
  unfolding extractIdsFromEvents_def by (rule fold_extract) (simp add: counted_def)

lemma allIds_fold:
  "fst (fold (\<lambda>evt (allIds, occurrences).
             case event_id evt of
               None \<Rightarrow> (allIds, occurrences)
             | Some eid \<Rightarrow>
                 (allIds @ [eid],
                  map_set occurrences eid
                    ((case map_of occurrences eid of
                        None \<Rightarrow> 0
                      | Some n \<Rightarrow> if n = 0 then 0 else n) + 1)))
          events acc) = fst acc @ List.map_filter event_id events"
proof (induction events arbitrary: acc)
  case Nil
  show ?case by (simp add: List.map_filter_def)
next
  case (Cons evt events)
  obtain ids occ where acc: "acc = (ids, occ)" by (cases acc)
  show ?case using Cons acc
    by (cases "event_id evt") (simp_all add: List.map_filter_def)
qed

lemma allIds_extractIdsFromEvents:
  "fst (extractIdsFromEvents events) = List.map_filter event_id events"
  using allIds_fold [of events "([], [])"] by (simp add: extractIdsFromEvents_def)

lemma set_occurrences:
  "set (snd (extractIdsFromEvents events))
     = {(k, n). k \<in> set (fst (extractIdsFromEvents events))
              \<and> n = count_list (fst (extractIdsFromEvents events)) k}"
proof -
  let ?p = "extractIdsFromEvents events"
  have c: "counted ?p" by (rule counted_extractIdsFromEvents)
  then have d: "distinct (map fst (snd ?p))" by (simp add: counted_def)
  have "(k, n) \<in> set (snd ?p) \<longleftrightarrow> map_of (snd ?p) k = Some n" for k n
    using d by simp
  then show ?thesis using c by (auto simp: counted_def split: if_splits)
qed


subsection \<open>The report\<close>

lemma distinct_map_sort_key: "distinct (map f (sort_key f xs)) = distinct (map f xs)"
  by (induction xs) (simp_all add: distinct_insort_key)

lemma analyze_fields:
  "missingInEventsJson (analyze files events)
     = sort (filter (\<lambda>eid. eid \<notin> set (fst (extractIdsFromEvents events))) (readRawEventIds files))"
  "missingRawFiles (analyze files events)
     = sort (filter (\<lambda>eid. eid \<notin> set (readRawEventIds files))
               (new_Set (fst (extractIdsFromEvents events))))"
  "duplicates (analyze files events)
     = sort_key fst (filter (\<lambda>(eid, n). n > 1) (snd (extractIdsFromEvents events)))"
  by (simp_all add: analyze_def Let_def case_prod_beta set_new_Set)

lemma count_list_map_filter:
  "count_list (List.map_filter g xs) k = length (filter (\<lambda>x. g x = Some k) xs)"
  by (induction xs) (auto simp: List.map_filter_def)

lemma set_readRawEventIds_listing:
  "set (readRawEventIds files) = set (List.map_filter match_txt files)"
  by (simp add: set_readRawEventIds set_map_filter)

text \<open>
  Claim C4. The ids of the raw corpus are the ids of the file names of the directory
  listing, \<open>List.map_filter match_txt files\<close>, and the ids of the catalog are the ids
  that its records refer to, \<open>List.map_filter event_id events\<close>. \<open>analyze\<close> reports as
  \<open>missingInEventsJson\<close> exactly the ids of the raw corpus that no catalog record refers
  to, as \<open>missingRawFiles\<close> exactly the ids the catalog records refer to that are not in
  the raw corpus, and as \<open>duplicates\<close> exactly the ids that more than one catalog
  record refers to, each with the number of the records that refer to it; each list is
  sorted and without repetition. Catalog ids 1, 2, 3 against corpus ids 2, 3, 4 give
  \<open>[4]\<close> and \<open>[1]\<close>, and two records with the id 555 give the one duplicate \<open>(555, 2)\<close>,
  also behind a record that is \<^verbatim>\<open>null\<close>. Files that are not named by an id and records
  without a link are passed over.
\<close>

theorem analyze_reports_differences_and_duplicates:
  "set (missingInEventsJson (analyze files events))
     = set (List.map_filter match_txt files) - set (List.map_filter event_id events)
   \<and> set (missingRawFiles (analyze files events))
     = set (List.map_filter event_id events) - set (List.map_filter match_txt files)
   \<and> set (duplicates (analyze files events))
     = {(k, n). n = length (filter (\<lambda>evt. event_id evt = Some k) events) \<and> 1 < n}
   \<and> sorted (missingInEventsJson (analyze files events))
   \<and> distinct (missingInEventsJson (analyze files events))
   \<and> sorted (missingRawFiles (analyze files events))
   \<and> distinct (missingRawFiles (analyze files events))
   \<and> sorted (map fst (duplicates (analyze files events)))
   \<and> distinct (map fst (duplicates (analyze files events)))
   \<and> missingInEventsJson
         (analyze [''2.txt'', ''3.txt'', ''4.txt'']
            [linked_record ''1'', linked_record ''2'', linked_record ''3'']) = [''4'']
   \<and> missingRawFiles
         (analyze [''2.txt'', ''3.txt'', ''4.txt'']
            [linked_record ''1'', linked_record ''2'', linked_record ''3'']) = [''1'']
   \<and> duplicates (analyze [''555.txt''] [linked_record ''555'', linked_record ''555''])
        = [(''555'', 2)]
   \<and> duplicates (analyze [] [JNull, linked_record ''555'', linked_record ''555''])
        = [(''555'', 2)]
   \<and> missingInEventsJson
         (analyze [''2.txt'', ''notes.md'', ''a3.txt'', ''4.txt'', ''4.txt.bak'']
            [JNull, linked_record ''1'', JObj [(''name'', JStr ''x'')], linked_record ''2'',
             linked_record ''1'']) = [''4'']
   \<and> missingRawFiles
         (analyze [''2.txt'', ''notes.md'', ''a3.txt'', ''4.txt'', ''4.txt.bak'']
            [JNull, linked_record ''1'', JObj [(''name'', JStr ''x'')], linked_record ''2'',
             linked_record ''1'']) = [''1'']
   \<and> duplicates
         (analyze [''2.txt'', ''notes.md'', ''a3.txt'', ''4.txt'', ''4.txt.bak'']
            [JNull, linked_record ''1'', JObj [(''name'', JStr ''x'')], linked_record ''2'',
             linked_record ''1'']) = [(''1'', 2)]"
proof (intro conjI)
  let ?ids = "fst (extractIdsFromEvents events)"
  let ?occ = "snd (extractIdsFromEvents events)"
  let ?raw = "readRawEventIds files"
  have ids: "?ids = List.map_filter event_id events"
    by (rule allIds_extractIdsFromEvents)
  have raw: "set ?raw = set (List.map_filter match_txt files)"
    by (rule set_readRawEventIds_listing)
  have "set (missingInEventsJson (analyze files events)) = set ?raw - set ?ids"
    by (auto simp: analyze_fields)
  then show "set (missingInEventsJson (analyze files events))
      = set (List.map_filter match_txt files) - set (List.map_filter event_id events)"
    unfolding raw ids .
  have "set (missingRawFiles (analyze files events)) = set ?ids - set ?raw"
    by (auto simp: analyze_fields set_new_Set)
  then show "set (missingRawFiles (analyze files events))
      = set (List.map_filter event_id events) - set (List.map_filter match_txt files)"
    unfolding raw ids .
  have "set (duplicates (analyze files events)) = {(k, n). (k, n) \<in> set ?occ \<and> 1 < n}"
    by (auto simp: analyze_fields)
  also have "\<dots> = {(k, n). n = count_list ?ids k \<and> 1 < n}"
  proof -
    have "k \<in> set ?ids" if "1 < count_list ?ids k" for k
    proof -
      have "0 < count_list ?ids k" using that by simp
      then show ?thesis by (simp only: count_list_pos)
    qed
    then show ?thesis by (auto simp: set_occurrences)
  qed
  also have "\<dots> = {(k, n). n = length (filter (\<lambda>evt. event_id evt = Some k) events) \<and> 1 < n}"
    unfolding ids by (simp add: count_list_map_filter)
  finally show "set (duplicates (analyze files events))
      = {(k, n). n = length (filter (\<lambda>evt. event_id evt = Some k) events) \<and> 1 < n}" .
  show "sorted (missingInEventsJson (analyze files events))"
    by (simp add: analyze_fields)
  show "distinct (missingInEventsJson (analyze files events))"
    by (simp add: analyze_fields distinct_readRawEventIds)
  show "sorted (missingRawFiles (analyze files events))"
    by (simp add: analyze_fields)
  show "distinct (missingRawFiles (analyze files events))"
    by (simp add: analyze_fields distinct_new_Set)
  show "sorted (map fst (duplicates (analyze files events)))"
    by (simp add: analyze_fields)
  have "distinct (map fst ?occ)"
    using counted_extractIdsFromEvents [of events] by (simp add: counted_def)
  then show "distinct (map fst (duplicates (analyze files events)))"
    by (simp add: analyze_fields distinct_map_sort_key distinct_map_filter)
  show "missingInEventsJson
         (analyze [''2.txt'', ''3.txt'', ''4.txt'']
            [linked_record ''1'', linked_record ''2'', linked_record ''3'']) = [''4'']"
    by code_simp
  show "missingRawFiles
         (analyze [''2.txt'', ''3.txt'', ''4.txt'']
            [linked_record ''1'', linked_record ''2'', linked_record ''3'']) = [''1'']"
    by code_simp
  show "duplicates (analyze [''555.txt''] [linked_record ''555'', linked_record ''555''])
        = [(''555'', 2)]"
    by code_simp
  show "duplicates (analyze [] [JNull, linked_record ''555'', linked_record ''555''])
        = [(''555'', 2)]"
    by code_simp
  show "missingInEventsJson
         (analyze [''2.txt'', ''notes.md'', ''a3.txt'', ''4.txt'', ''4.txt.bak'']
            [JNull, linked_record ''1'', JObj [(''name'', JStr ''x'')], linked_record ''2'',
             linked_record ''1'']) = [''4'']"
    by code_simp
  show "missingRawFiles
         (analyze [''2.txt'', ''notes.md'', ''a3.txt'', ''4.txt'', ''4.txt.bak'']
            [JNull, linked_record ''1'', JObj [(''name'', JStr ''x'')], linked_record ''2'',
             linked_record ''1'']) = [''1'']"
    by code_simp
  show "duplicates
         (analyze [''2.txt'', ''notes.md'', ''a3.txt'', ''4.txt'', ''4.txt.bak'']
            [JNull, linked_record ''1'', JObj [(''name'', JStr ''x'')], linked_record ''2'',
             linked_record ''1'']) = [(''1'', 2)]"
    by code_simp
qed

text \<open>
  The three lists at a listing with two files that are named by an id, and a catalog
  whose records refer to the ids 1, 2 and 1 again.
\<close>

theorem analyze_reports_differences_and_duplicates_witness:
  "List.map_filter match_txt [''2.txt'', ''notes.md'', ''a3.txt'', ''4.txt'', ''4.txt.bak'']
     = [''2'', ''4'']
   \<and> List.map_filter event_id
         [JNull, linked_record ''1'', JObj [(''name'', JStr ''x'')], linked_record ''2'',
          linked_record ''1''] = [''1'', ''2'', ''1'']
   \<and> set (missingInEventsJson
         (analyze [''2.txt'', ''notes.md'', ''a3.txt'', ''4.txt'', ''4.txt.bak'']
            [JNull, linked_record ''1'', JObj [(''name'', JStr ''x'')], linked_record ''2'',
             linked_record ''1''])) = {''4''}
   \<and> set (missingRawFiles
         (analyze [''2.txt'', ''notes.md'', ''a3.txt'', ''4.txt'', ''4.txt.bak'']
            [JNull, linked_record ''1'', JObj [(''name'', JStr ''x'')], linked_record ''2'',
             linked_record ''1''])) = {''1''}"
proof -
  let ?files = "[''2.txt'', ''notes.md'', ''a3.txt'', ''4.txt'', ''4.txt.bak'']"
  let ?events = "[JNull, linked_record ''1'', JObj [(''name'', JStr ''x'')], linked_record ''2'',
          linked_record ''1'']"
  have f: "List.map_filter match_txt ?files = [''2'', ''4'']"
    by code_simp
  have e: "List.map_filter event_id ?events = [''1'', ''2'', ''1'']"
    by code_simp
  have "set (missingInEventsJson (analyze ?files ?events)) = set [''2'', ''4''] - set [''1'', ''2'', ''1'']"
    and "set (missingRawFiles (analyze ?files ?events)) = set [''1'', ''2'', ''1''] - set [''2'', ''4'']"
    using analyze_reports_differences_and_duplicates [of ?files ?events] unfolding f e by blast+
  then show ?thesis using f e by auto
qed

section \<open>The catalog parser\<close>

subsection \<open>The parser consumes its input\<close>

lemma is_json_ws_space16: "is_json_ws c \<Longrightarrow> is_space16 c"
  by (auto simp: is_json_ws_def is_space16_def)

lemma parse_chars_length: "parse_chars s = Some (str, r) \<Longrightarrow> length r < length s"
  by (induction s arbitrary: str r rule: parse_chars.induct)
     (fastforce split: if_splits list.splits option.splits)+

lemma number_sign_length: "number_sign s = (b, r) \<Longrightarrow> length r \<le> length s"
  by (auto simp: number_sign_def split: list.splits if_splits)

lemma number_int_length: "number_int s = (i, r) \<Longrightarrow> i \<noteq> [] \<Longrightarrow> length r < length s"
  by (auto simp: number_int_def length_dropWhile_le less_Suc_eq_le split: list.splits if_splits)

lemma number_frac_length: "number_frac s = Some (f, r) \<Longrightarrow> length r \<le> length s"
  by (auto simp: number_frac_def length_dropWhile_le le_SucI split: list.splits if_splits)

lemma number_exp_sign_length: "number_exp_sign s = (b, r) \<Longrightarrow> length r \<le> length s"
  by (auto simp: number_exp_sign_def split: list.splits if_splits)

lemma number_exp_length:
  assumes "number_exp s = Some (e, r)"
  shows "length r \<le> length s"
proof (cases s)
  case Nil
  with assms show ?thesis by (simp add: number_exp_def)
next
  case (Cons c cs)
  obtain sg r' where sg: "number_exp_sign cs = (sg, r')" by (cases "number_exp_sign cs")
  have "length (dropWhile is_digit16 r') \<le> length r'" by (rule length_dropWhile_le)
  also have "\<dots> \<le> length cs" using sg by (rule number_exp_sign_length)
  finally show ?thesis
    using assms unfolding Cons by (auto simp: number_exp_def sg split: if_splits)
qed

lemma parse_number_length:
  assumes "parse_number s = Some (x, r)"
  shows "length r < length s"
proof -
  obtain neg s1 where 1: "number_sign s = (neg, s1)" by (cases "number_sign s")
  obtain ipart s2 where 2: "number_int s1 = (ipart, s2)" by (cases "number_int s1")
  from assms 1 2 have i: "ipart \<noteq> []"
    by (auto simp: parse_number_def split: if_splits)
  from assms 1 2 i obtain fpart s3 where 3: "number_frac s2 = Some (fpart, s3)"
    by (auto simp: parse_number_def split: option.splits)
  from assms 1 2 i 3 obtain e where 4: "number_exp s3 = Some (e, r)"
    by (auto simp: parse_number_def Let_def split: option.splits)
  have "length r \<le> length s3" using 4 by (rule number_exp_length)
  also have "\<dots> \<le> length s2" using 3 by (rule number_frac_length)
  also have "\<dots> < length s1" using 2 i by (rule number_int_length)
  also have "\<dots> \<le> length s" using 1 by (rule number_sign_length)
  finally show ?thesis .
qed

lemma skip_ws_Cons_length: "skip_ws s = d # r \<Longrightarrow> length r < length s"
  using length_dropWhile_le [of is_json_ws s] by (simp add: skip_ws_def)

lemma skip_ws_length: "length (skip_ws s) \<le> length s"
  by (simp add: skip_ws_def length_dropWhile_le)

text \<open>
  A value that is parsed leaves less text than it was given; so do the elements of an
  array and the members of an object.
\<close>

lemma parse_length:
  "(\<forall>s v r. parse_value n s = Ok (v, r) \<longrightarrow> length r < length s)
   \<and> (\<forall>s acc v r. parse_elements n s acc = Ok (v, r) \<longrightarrow> length r < length s)
   \<and> (\<forall>s acc v r. parse_members n s acc = Ok (v, r) \<longrightarrow> length r < length s)"
proof (induction n)
  case 0
  show ?case by simp
next
  case (Suc n)
  then have IHv: "\<And>s v r. parse_value n s = Ok (v, r) \<Longrightarrow> length r < length s"
    and IHe: "\<And>s acc v r. parse_elements n s acc = Ok (v, r) \<Longrightarrow> length r < length s"
    and IHm: "\<And>s acc v r. parse_members n s acc = Ok (v, r) \<Longrightarrow> length r < length s"
    by blast+
  have V: "length r < length s" if "parse_value (Suc n) s = Ok (v, r)" for s v r
    using that
    by (auto split: list.splits if_splits option.splits
        dest!: IHe IHm parse_chars_length parse_number_length skip_ws_Cons_length)
  have E: "length r < length s" if "parse_elements (Suc n) s acc = Ok (v, r)" for s acc v r
  proof -
    from that obtain v1 r1 where 1: "parse_value n (skip_ws s) = Ok (v1, r1)"
      by (auto split: parse.splits)
    then have "length r1 < length (skip_ws s)" by (rule IHv)
    then have l1: "length r1 < length s" using skip_ws_length [of s] by simp
    from that 1 obtain d r' where 2: "skip_ws r1 = d # r'"
      by (auto split: list.splits)
    then have l2: "length r' < length r1" by (rule skip_ws_Cons_length)
    from that 1 2 have "parse_elements n r' (acc @ [v1]) = Ok (v, r) \<or> r = r'"
      by (auto split: if_splits)
    then show ?thesis using l1 l2 IHe by fastforce
  qed
  have M: "length r < length s" if "parse_members (Suc n) s acc = Ok (v, r)" for s acc v r
  proof -
    from that obtain s1 where 0: "skip_ws s = 34 # s1"
      by (auto split: list.splits if_splits)
    from that 0 obtain key s2 where k: "parse_chars s1 = Some (key, s2)"
      by (auto split: option.splits)
    from that 0 k obtain s3 where c: "skip_ws s2 = 58 # s3"
      by (auto split: list.splits if_splits)
    from that 0 k c obtain v1 r1 where 1: "parse_value n (skip_ws s3) = Ok (v1, r1)"
      by (auto split: parse.splits)
    from that 0 k c 1 obtain d r' where 2: "skip_ws r1 = d # r'"
      by (auto split: list.splits)
    from that 0 k c 1 2 have 3: "parse_members n r' (object_set16 acc key v1) = Ok (v, r) \<or> r = r'"
      by (auto split: if_splits)
    have "length r' < length r1" using 2 by (rule skip_ws_Cons_length)
    also have "\<dots> < length (skip_ws s3)" using 1 by (rule IHv)
    also have "\<dots> \<le> length s3" by (rule skip_ws_length)
    also have "\<dots> < length s2" using c by (rule skip_ws_Cons_length)
    also have "\<dots> < length s1" using k by (rule parse_chars_length)
    also have "\<dots> < length s" using 0 by (rule skip_ws_Cons_length)
    finally have "length r' < length s" .
    then show ?thesis using 3 IHm by fastforce
  qed
  show ?case using V E M by blast
qed

lemmas parse_value_length = parse_length [THEN conjunct1, rule_format]
lemmas parse_elements_length = parse_length [THEN conjunct2, THEN conjunct1, rule_format]
lemmas parse_members_length = parse_length [THEN conjunct2, THEN conjunct2, rule_format]

subsection \<open>The steps never run out\<close>

text \<open>
  Two steps for each character are enough: a value needs more steps than twice the
  length of its text, elements and members one more.
\<close>

lemma parse_fuel:
  "(\<forall>s. 2 * length s < n \<longrightarrow> parse_value n s \<noteq> OutOfFuel)
   \<and> (\<forall>s acc. 2 * length s + 1 < n \<longrightarrow> parse_elements n s acc \<noteq> OutOfFuel)
   \<and> (\<forall>s acc. 2 * length s + 1 < n \<longrightarrow> parse_members n s acc \<noteq> OutOfFuel)"
proof (induction n)
  case 0
  show ?case by simp
next
  case (Suc n)
  then have IHv: "\<And>s. 2 * length s < n \<Longrightarrow> parse_value n s \<noteq> OutOfFuel"
    and IHe: "\<And>s acc. 2 * length s + 1 < n \<Longrightarrow> parse_elements n s acc \<noteq> OutOfFuel"
    and IHm: "\<And>s acc. 2 * length s + 1 < n \<Longrightarrow> parse_members n s acc \<noteq> OutOfFuel"
    by blast+
  have V: "parse_value (Suc n) s \<noteq> OutOfFuel" if "2 * length s < Suc n" for s
  proof (cases s)
    case Nil
    then show ?thesis by simp
  next
    case (Cons c cs)
    have "parse_elements n (d # r) [] \<noteq> OutOfFuel \<and> parse_members n (d # r) [] \<noteq> OutOfFuel"
      if "skip_ws cs = d # r" for d r
    proof -
      have "length (d # r) \<le> length cs" using skip_ws_length [of cs] that by simp
      then have "2 * length (d # r) + 1 < n" using \<open>2 * length s < Suc n\<close> Cons by simp
      then show ?thesis using IHe IHm by blast
    qed
    then show ?thesis
      unfolding Cons by (auto split: list.splits option.splits)
  qed
  have E: "parse_elements (Suc n) s acc \<noteq> OutOfFuel" if "2 * length s + 1 < Suc n" for s acc
  proof (cases "parse_value n (skip_ws s)")
    case (Ok x)
    obtain v r1 where x: "x = (v, r1)" by (cases x)
    have l1: "length r1 < length s"
      using parse_value_length [of n "skip_ws s" v r1] Ok x skip_ws_length [of s] by simp
    have "parse_elements n r' (acc @ [v]) \<noteq> OutOfFuel" if "skip_ws r1 = d # r'" for d r'
    proof -
      have "length r' < length r1" using that by (rule skip_ws_Cons_length)
      then have "2 * length r' + 1 < n" using l1 \<open>2 * length s + 1 < Suc n\<close> by simp
      then show ?thesis by (rule IHe)
    qed
    then show ?thesis using Ok x by (auto split: list.splits)
  next
    case SyntaxError
    then show ?thesis by simp
  next
    case OutOfFuel
    have "2 * length (skip_ws s) < n" using that skip_ws_length [of s] by simp
    then show ?thesis using IHv OutOfFuel by blast
  qed
  have M: "parse_members (Suc n) s acc \<noteq> OutOfFuel" if "2 * length s + 1 < Suc n" for s acc
  proof -
    have "(case parse_value n (skip_ws s3) of
             Ok (v, r) \<Rightarrow>
               (case skip_ws r of
                  [] \<Rightarrow> SyntaxError
                | d # r' \<Rightarrow>
                    if d = 44 then parse_members n r' (object_set16 acc key v)
                    else if d = 125 then Ok (JObj (object_set16 acc key v), r')
                    else SyntaxError)
           | SyntaxError \<Rightarrow> SyntaxError
           | OutOfFuel \<Rightarrow> OutOfFuel) \<noteq> OutOfFuel"
      if 0: "skip_ws s = q # s1" and k: "parse_chars s1 = Some (key, s2)"
        and c: "skip_ws s2 = colon # s3" for q s1 key s2 colon s3
    proof -
      have "length s3 < length s2" using c by (rule skip_ws_Cons_length)
      also have "\<dots> < length s1" using k by (rule parse_chars_length)
      also have "\<dots> < length s" using 0 by (rule skip_ws_Cons_length)
      finally have l3: "length s3 < length s" .
      show ?thesis
      proof (cases "parse_value n (skip_ws s3)")
        case (Ok x)
        obtain v r1 where x: "x = (v, r1)" by (cases x)
        have l1: "length r1 < length s"
          using parse_value_length [of n "skip_ws s3" v r1] Ok x skip_ws_length [of s3] l3
          by simp
        have "parse_members n r' (object_set16 acc key v) \<noteq> OutOfFuel"
          if "skip_ws r1 = d # r'" for d r'
        proof -
          have "length r' < length r1" using that by (rule skip_ws_Cons_length)
          then have "2 * length r' + 1 < n" using l1 \<open>2 * length s + 1 < Suc n\<close> by simp
          then show ?thesis by (rule IHm)
        qed
        then show ?thesis using Ok x by (auto split: list.splits)
      next
        case SyntaxError
        then show ?thesis by simp
      next
        case OutOfFuel
        have "2 * length (skip_ws s3) < n"
          using \<open>2 * length s + 1 < Suc n\<close> l3 skip_ws_length [of s3] by simp
        then show ?thesis using IHv OutOfFuel by blast
      qed
    qed
    then show ?thesis
      by (simp split: list.splits option.splits prod.splits)
  qed
  show ?case using V E M by blast
qed

lemma JSON_parse_steps_total: "JSON_parse_steps s \<noteq> OutOfFuel"
proof -
  define n where "n = 2 * length s + 2"
  have "2 * length (skip_ws s) < n"
    using skip_ws_length [of s] by (simp add: n_def)
  then have "parse_value n (skip_ws s) \<noteq> OutOfFuel"
    using parse_fuel by blast
  then show ?thesis
    unfolding JSON_parse_steps_def n_def [symmetric] by (auto split: parse.splits)
qed

text \<open>A result that is not \<open>OutOfFuel\<close> stays the same with more steps.\<close>

lemma parse_mono:
  "(\<forall>s. parse_value n s \<noteq> OutOfFuel \<longrightarrow> parse_value (Suc n) s = parse_value n s)
   \<and> (\<forall>s acc. parse_elements n s acc \<noteq> OutOfFuel
         \<longrightarrow> parse_elements (Suc n) s acc = parse_elements n s acc)
   \<and> (\<forall>s acc. parse_members n s acc \<noteq> OutOfFuel
         \<longrightarrow> parse_members (Suc n) s acc = parse_members n s acc)"
proof (induction n)
  case 0
  show ?case by simp
next
  case (Suc n)
  then have IHv: "\<And>s. parse_value n s \<noteq> OutOfFuel \<Longrightarrow> parse_value (Suc n) s = parse_value n s"
    and IHe: "\<And>s acc. parse_elements n s acc \<noteq> OutOfFuel
                \<Longrightarrow> parse_elements (Suc n) s acc = parse_elements n s acc"
    and IHm: "\<And>s acc. parse_members n s acc \<noteq> OutOfFuel
                \<Longrightarrow> parse_members (Suc n) s acc = parse_members n s acc"
    by blast+
  have V: "parse_value (Suc (Suc n)) s = parse_value (Suc n) s"
    if "parse_value (Suc n) s \<noteq> OutOfFuel" for s
    using that
    by (auto split: list.splits option.splits
        simp del: parse_elements.simps parse_members.simps simp: IHe IHm)
  have E: "parse_elements (Suc (Suc n)) s acc = parse_elements (Suc n) s acc"
    if "parse_elements (Suc n) s acc \<noteq> OutOfFuel" for s acc
  proof (cases "parse_value n (skip_ws s)")
    case (Ok x)
    then have v: "parse_value (Suc n) (skip_ws s) = Ok x"
      using IHv [of "skip_ws s"] by simp
    obtain v r1 where x: "x = (v, r1)" by (cases x)
    show ?thesis
    proof (cases "skip_ws r1")
      case Nil
      show ?thesis
        by (subst parse_elements.simps(2), subst (2) parse_elements.simps(2))
          (simp add: v Ok x Nil del: parse_value.simps parse_elements.simps parse_members.simps)
    next
      case (Cons d r')
      have "parse_elements (Suc n) r' (acc @ [v]) = parse_elements n r' (acc @ [v])" if "d = 44"
        using \<open>parse_elements (Suc n) s acc \<noteq> OutOfFuel\<close> Ok x Cons that
        unfolding parse_elements.simps(2) [of n s acc]
        by (intro IHe) (simp del: parse_value.simps parse_elements.simps parse_members.simps)
      then show ?thesis
        by (subst parse_elements.simps(2), subst (2) parse_elements.simps(2))
          (simp add: v Ok x Cons del: parse_value.simps parse_elements.simps parse_members.simps)
    qed
  next
    case SyntaxError
    then have v: "parse_value (Suc n) (skip_ws s) = SyntaxError"
      using IHv [of "skip_ws s"] by simp
    show ?thesis
      by (subst parse_elements.simps(2), subst (2) parse_elements.simps(2))
        (simp add: v SyntaxError del: parse_value.simps parse_elements.simps parse_members.simps)
  next
    case OutOfFuel
    then show ?thesis using that by (subst (asm) parse_elements.simps(2)) (simp del: parse_value.simps parse_elements.simps parse_members.simps)
  qed
  have M: "parse_members (Suc (Suc n)) s acc = parse_members (Suc n) s acc"
    if h: "parse_members (Suc n) s acc \<noteq> OutOfFuel" for s acc
  proof -
    have "(case parse_value (Suc n) t of
             Ok (v, r) \<Rightarrow>
               (case skip_ws r of
                  [] \<Rightarrow> SyntaxError
                | d # r' \<Rightarrow>
                    if d = 44 then parse_members (Suc n) r' (object_set16 acc key v)
                    else if d = 125 then Ok (JObj (object_set16 acc key v), r')
                    else SyntaxError)
           | SyntaxError \<Rightarrow> SyntaxError
           | OutOfFuel \<Rightarrow> OutOfFuel)
        = (case parse_value n t of
             Ok (v, r) \<Rightarrow>
               (case skip_ws r of
                  [] \<Rightarrow> SyntaxError
                | d # r' \<Rightarrow>
                    if d = 44 then parse_members n r' (object_set16 acc key v)
                    else if d = 125 then Ok (JObj (object_set16 acc key v), r')
                    else SyntaxError)
           | SyntaxError \<Rightarrow> SyntaxError
           | OutOfFuel \<Rightarrow> OutOfFuel)"
      if nf: "(case parse_value n t of
             Ok (v, r) \<Rightarrow>
               (case skip_ws r of
                  [] \<Rightarrow> SyntaxError
                | d # r' \<Rightarrow>
                    if d = 44 then parse_members n r' (object_set16 acc key v)
                    else if d = 125 then Ok (JObj (object_set16 acc key v), r')
                    else SyntaxError)
           | SyntaxError \<Rightarrow> SyntaxError
           | OutOfFuel \<Rightarrow> OutOfFuel) \<noteq> OutOfFuel" for t key
    proof (cases "parse_value n t")
      case (Ok x)
      then have v: "parse_value (Suc n) t = Ok x"
        using IHv [of t] by simp
      obtain v r1 where x: "x = (v, r1)" by (cases x)
      show ?thesis
      proof (cases "skip_ws r1")
        case Nil
        show ?thesis by (simp add: v Ok x Nil del: parse_value.simps parse_elements.simps parse_members.simps)
      next
        case (Cons d r')
        have "parse_members (Suc n) r' (object_set16 acc key v)
              = parse_members n r' (object_set16 acc key v)" if "d = 44"
          using nf Ok x Cons that by (intro IHm) (simp del: parse_value.simps parse_elements.simps parse_members.simps)
        then show ?thesis by (simp add: v Ok x Cons del: parse_value.simps parse_elements.simps parse_members.simps)
      qed
    next
      case SyntaxError
      then have v: "parse_value (Suc n) t = SyntaxError"
        using IHv [of t] by simp
      show ?thesis by (simp add: v SyntaxError del: parse_value.simps parse_elements.simps parse_members.simps)
    next
      case OutOfFuel
      then show ?thesis using nf by (simp del: parse_value.simps parse_elements.simps parse_members.simps)
    qed
    note step = this
    note unf = parse_members.simps(2) [of _ s acc]
    show ?thesis
    proof (cases "skip_ws s")
      case Nil
      then show ?thesis by (simp add: unf del: parse_value.simps parse_elements.simps parse_members.simps)
    next
      case s: (Cons q s1)
      show ?thesis
      proof (cases "parse_chars s1")
        case None
        then show ?thesis by (simp add: unf s del: parse_value.simps parse_elements.simps parse_members.simps)
      next
        case (Some p)
        obtain key s2 where p: "p = (key, s2)" by (cases p)
        show ?thesis
        proof (cases "skip_ws s2")
          case Nil
          then show ?thesis by (simp add: unf s Some p del: parse_value.simps parse_elements.simps parse_members.simps)
        next
          case c: (Cons colon s3)
          show ?thesis
          proof (cases "q = 34 \<and> colon = 58")
            case True
            then show ?thesis
              using h step [of key "skip_ws s3"] by (simp add: unf s Some p c del: parse_value.simps parse_elements.simps parse_members.simps)
          next
            case False
            then show ?thesis by (auto simp add: unf s Some p c simp del: parse_value.simps parse_elements.simps parse_members.simps)
          qed
        qed
      qed
    qed
  qed
  show ?case using V E M by blast
qed

subsection \<open>Text behind a value\<close>

text \<open>
  What is parsed does not depend on the text behind it. For a number this holds when
  the number ends inside the text, since more digits could follow otherwise.
\<close>

lemma hex4_length: "hex4 s = Some u \<Longrightarrow> length s = 4"
  by (auto simp: hex4_def split: list.splits option.splits)

lemma parse_chars_append:
  "parse_chars s = Some (str, r) \<Longrightarrow> parse_chars (s @ t) = Some (str, r @ t)"
proof (induction s arbitrary: str r rule: parse_chars.induct)
  case 1
  then show ?case by simp
next
  case (2 c cs)
  show ?case
  proof (cases "c = 34 \<or> c \<noteq> 92")
    case True
    then show ?thesis
      using "2.prems" "2.IH"(3) by (auto split: if_splits)
  next
    case False
    then have c: "c = 92" by simp
    then obtain e r0 where cs: "cs = e # r0"
      using "2.prems" by (cases cs) auto
    show ?thesis
    proof (cases "e = 117")
      case True
      then obtain u where u: "hex4 (take 4 r0) = Some u"
        using "2.prems" c cs by (auto split: option.splits)
      then have "length (take 4 r0) = 4" by (rule hex4_length)
      then have l: "4 \<le> length r0" by simp
      obtain str' where "parse_chars (drop 4 r0) = Some (str', r)" and "str = u # str'"
        using "2.prems" c cs True u by auto
      then have "parse_chars (drop 4 r0 @ t) = Some (str', r @ t)"
        using "2.IH"(1) c cs True u by simp
      then show ?thesis
        using \<open>str = u # str'\<close> c cs True u l by auto
    next
      case False
      then obtain u where u: "simple_escape e = Some u"
        using "2.prems" c cs by (auto split: option.splits)
      obtain str' where "parse_chars r0 = Some (str', r)" and "str = u # str'"
        using "2.prems" c cs False u by auto
      then have "parse_chars (r0 @ t) = Some (str', r @ t)"
        using "2.IH"(2) c cs False u by simp
      then show ?thesis
        using \<open>str = u # str'\<close> c cs False u by auto
    qed
  qed
qed

lemma takeWhile_append_stop:
  "dropWhile P xs \<noteq> [] \<Longrightarrow> takeWhile P (xs @ ys) = takeWhile P xs"
  by (induction xs) auto

lemma dropWhile_append_stop:
  "dropWhile P xs \<noteq> [] \<Longrightarrow> dropWhile P (xs @ ys) = dropWhile P xs @ ys"
  by (induction xs) auto

lemma number_sign_append:
  "number_sign s = (b, r) \<Longrightarrow> r \<noteq> [] \<Longrightarrow> number_sign (s @ t) = (b, r @ t)"
  by (auto simp: number_sign_def split: list.splits if_splits)

lemma number_int_append:
  "number_int s = (i, r) \<Longrightarrow> r \<noteq> [] \<Longrightarrow> number_int (s @ t) = (i, r @ t)"
  by (cases s)
    (auto simp: number_int_def takeWhile_append_stop dropWhile_append_stop split: if_splits)

lemma number_frac_append:
  "number_frac s = Some (f, r) \<Longrightarrow> r \<noteq> [] \<Longrightarrow> number_frac (s @ t) = Some (f, r @ t)"
  by (cases s)
    (auto simp: number_frac_def takeWhile_append_stop dropWhile_append_stop split: if_splits)

lemma number_exp_sign_append:
  "number_exp_sign s = (b, r) \<Longrightarrow> r \<noteq> [] \<Longrightarrow> number_exp_sign (s @ t) = (b, r @ t)"
  by (auto simp: number_exp_sign_def split: list.splits if_splits)

lemma number_exp_append:
  assumes "number_exp s = Some (e, r)" and "r \<noteq> []"
  shows "number_exp (s @ t) = Some (e, r @ t)"
proof (cases s)
  case Nil
  with assms show ?thesis by (simp add: number_exp_def)
next
  case (Cons c cs)
  obtain sg r' where sg: "number_exp_sign cs = (sg, r')" by (cases "number_exp_sign cs")
  show ?thesis
  proof (cases "c = 101 \<or> c = 69")
    case True
    then have r: "r = dropWhile is_digit16 r'"
      using assms(1) Cons sg by (auto simp: number_exp_def split: if_splits)
    then have "r' \<noteq> []" using assms(2) by auto
    with sg have "number_exp_sign (cs @ t) = (sg, r' @ t)"
      by (rule number_exp_sign_append)
    then show ?thesis
      using assms True Cons sg r
      by (auto simp: number_exp_def takeWhile_append_stop dropWhile_append_stop
          split: if_splits)
  next
    case False
    then show ?thesis
      using assms Cons by (auto simp: number_exp_def)
  qed
qed

lemma number_exp_rest: "number_exp s = Some (e, r) \<Longrightarrow> r \<noteq> [] \<Longrightarrow> s \<noteq> []"
  by (auto simp: number_exp_def)

lemma number_frac_rest: "number_frac s = Some (f, r) \<Longrightarrow> r \<noteq> [] \<Longrightarrow> s \<noteq> []"
  by (auto simp: number_frac_def)

lemma number_int_rest: "number_int s = (i, r) \<Longrightarrow> r \<noteq> [] \<Longrightarrow> s \<noteq> []"
  by (auto simp: number_int_def)

lemma parse_number_parts:
  assumes "parse_number s = Some (x, r)"
  obtains neg s1 ipart s2 fpart s3 e where
    "number_sign s = (neg, s1)" "number_int s1 = (ipart, s2)" "ipart \<noteq> []"
    "number_frac s2 = Some (fpart, s3)" "number_exp s3 = Some (e, r)"
proof -
  obtain neg s1 where 1: "number_sign s = (neg, s1)" by (cases "number_sign s")
  obtain ipart s2 where 2: "number_int s1 = (ipart, s2)" by (cases "number_int s1")
  from assms 1 2 have i: "ipart \<noteq> []"
    by (auto simp: parse_number_def split: if_splits)
  from assms 1 2 i obtain fpart s3 where 3: "number_frac s2 = Some (fpart, s3)"
    by (auto simp: parse_number_def split: option.splits)
  from assms 1 2 i 3 obtain e where 4: "number_exp s3 = Some (e, r)"
    by (auto simp: parse_number_def Let_def split: option.splits)
  from 1 2 i 3 4 show ?thesis by (rule that)
qed

lemma parse_number_append:
  assumes "parse_number s = Some (x, r)" and "r \<noteq> []"
  shows "parse_number (s @ t) = Some (x, r @ t)"
proof -
  from assms(1) obtain neg s1 ipart s2 fpart s3 e where
    1: "number_sign s = (neg, s1)" and 2: "number_int s1 = (ipart, s2)" and i: "ipart \<noteq> []"
    and 3: "number_frac s2 = Some (fpart, s3)" and 4: "number_exp s3 = Some (e, r)"
    by (rule parse_number_parts)
  have s3: "s3 \<noteq> []" using 4 assms(2) by (rule number_exp_rest)
  have s2: "s2 \<noteq> []" using 3 s3 by (rule number_frac_rest)
  have s1: "s1 \<noteq> []" using 2 s2 by (rule number_int_rest)
  have "number_sign (s @ t) = (neg, s1 @ t)" using 1 s1 by (rule number_sign_append)
  moreover have "number_int (s1 @ t) = (ipart, s2 @ t)" using 2 s2 by (rule number_int_append)
  moreover have "number_frac (s2 @ t) = Some (fpart, s3 @ t)" using 3 s3 by (rule number_frac_append)
  moreover have "number_exp (s3 @ t) = Some (e, r @ t)" using 4 assms(2) by (rule number_exp_append)
  ultimately show ?thesis
    using assms(1) 1 2 i 3 4 by (cases e) (simp add: parse_number_def Let_def)
qed

lemma parse_number_hd:
  assumes "parse_number s = Some (x, r)"
  shows "s \<noteq> [] \<and> (hd s = 45 \<or> is_digit16 (hd s))"
proof -
  from assms obtain neg s1 ipart s2 where
    1: "number_sign s = (neg, s1)" and 2: "number_int s1 = (ipart, s2)" and i: "ipart \<noteq> []"
    by (rule parse_number_parts)
  have "s1 \<noteq> [] \<and> is_digit16 (hd s1)"
    using 2 i by (cases s1) (auto simp: number_int_def is_digit16_def split: if_splits)
  then show ?thesis
    using 1 by (cases s) (auto simp: number_sign_def split: if_splits)
qed

lemma skip_ws_append: "skip_ws s \<noteq> [] \<Longrightarrow> skip_ws (s @ t) = skip_ws s @ t"
  by (simp add: skip_ws_def dropWhile_append_stop)

lemma take_literal_append:
  assumes "take k s = l" and "length l = k"
  shows "take k (s @ t) = l" and "drop k (s @ t) = drop k s @ t"
proof -
  have "k \<le> length s" using assms by auto
  then show "take k (s @ t) = l" and "drop k (s @ t) = drop k s @ t"
    using assms by simp_all
qed

lemma parse_value_literal:
  assumes "c \<noteq> 123" and "c \<noteq> 91" and "c \<noteq> 34"
  shows "parse_value (Suc n) (c # cs) =
     (if take 4 (c # cs) = [116, 114, 117, 101] then Ok (JBool True, drop 4 (c # cs))
      else if take 5 (c # cs) = [102, 97, 108, 115, 101] then Ok (JBool False, drop 5 (c # cs))
      else if take 4 (c # cs) = [110, 117, 108, 108] then Ok (JNull, drop 4 (c # cs))
      else (case parse_number (c # cs) of
              None \<Rightarrow> SyntaxError
            | Some (x, r) \<Rightarrow> Ok (JNum x, r)))"
  using assms by simp

lemma parse_literal_append:
  assumes "parse_value (Suc n) (c # cs) = Ok (v, r)"
    and "c \<noteq> 123" and "c \<noteq> 91" and "c \<noteq> 34"
    and "r \<noteq> [] \<or> (\<forall>x. v \<noteq> JNum x)"
  shows "parse_value (Suc n) ((c # cs) @ t) = Ok (v, r @ t)"
proof -
  let ?s = "c # cs"
  note pv = parse_value_literal [OF assms(2-4)]
  have pv': "parse_value (Suc n) (?s @ t) =
     (if take 4 (?s @ t) = [116, 114, 117, 101] then Ok (JBool True, drop 4 (?s @ t))
      else if take 5 (?s @ t) = [102, 97, 108, 115, 101] then Ok (JBool False, drop 5 (?s @ t))
      else if take 4 (?s @ t) = [110, 117, 108, 108] then Ok (JNull, drop 4 (?s @ t))
      else (case parse_number (?s @ t) of
              None \<Rightarrow> SyntaxError
            | Some (x, r) \<Rightarrow> Ok (JNum x, r)))"
    using parse_value_literal [OF assms(2-4), of n "cs @ t"] by simp
  consider (T) "take 4 ?s = [116, 114, 117, 101]"
    | (F) "take 5 ?s = [102, 97, 108, 115, 101]"
    | (N) "take 4 ?s = [110, 117, 108, 108]"
    | (num) "take 4 ?s \<noteq> [116, 114, 117, 101]" "take 5 ?s \<noteq> [102, 97, 108, 115, 101]"
        "take 4 ?s \<noteq> [110, 117, 108, 108]"
    by blast
  then show ?thesis
  proof cases
    case T
    then have "take 4 (?s @ t) = [116, 114, 117, 101]" "drop 4 (?s @ t) = drop 4 ?s @ t"
      by (rule take_literal_append, simp)+
    then show ?thesis
      using assms(1) T unfolding pv pv' by simp
  next
    case F
    then have c: "c = 102" by simp
    from F have "take 5 (?s @ t) = [102, 97, 108, 115, 101]" "drop 5 (?s @ t) = drop 5 ?s @ t"
      by (rule take_literal_append, simp)+
    then show ?thesis
      using assms(1) F c unfolding pv pv' by simp
  next
    case N
    then have c: "c = 110" by simp
    from N have "take 4 (?s @ t) = [110, 117, 108, 108]" "drop 4 (?s @ t) = drop 4 ?s @ t"
      by (rule take_literal_append, simp)+
    then show ?thesis
      using assms(1) N c unfolding pv pv' by simp
  next
    case num
    then obtain x where x: "parse_number ?s = Some (x, r)" and v: "v = JNum x"
      using assms(1) unfolding pv by (auto split: option.splits)
    then have r: "r \<noteq> []" using assms(5) by simp
    have "hd ?s = 45 \<or> is_digit16 (hd ?s)" using parse_number_hd [OF x] by simp
    then have c: "c \<noteq> 116" "c \<noteq> 102" "c \<noteq> 110"
      by (auto simp: is_digit16_def)
    have "parse_number (?s @ t) = Some (x, r @ t)"
      using x r by (rule parse_number_append)
    then show ?thesis
      using c v unfolding pv' by simp
  qed
qed

lemma parse_append:
  "(\<forall>s v r. parse_value n s = Ok (v, r) \<longrightarrow> (r \<noteq> [] \<or> (\<forall>x. v \<noteq> JNum x))
       \<longrightarrow> parse_value n (s @ t) = Ok (v, r @ t))
   \<and> (\<forall>s acc v r. parse_elements n s acc = Ok (v, r)
       \<longrightarrow> parse_elements n (s @ t) acc = Ok (v, r @ t))
   \<and> (\<forall>s acc v r. parse_members n s acc = Ok (v, r)
       \<longrightarrow> parse_members n (s @ t) acc = Ok (v, r @ t))"
proof (induction n)
  case 0
  show ?case by simp
next
  case (Suc n)
  then have IHv: "\<And>s v r. parse_value n s = Ok (v, r) \<Longrightarrow> r \<noteq> [] \<or> (\<forall>x. v \<noteq> JNum x)
                    \<Longrightarrow> parse_value n (s @ t) = Ok (v, r @ t)"
    and IHe: "\<And>s acc v r. parse_elements n s acc = Ok (v, r)
                    \<Longrightarrow> parse_elements n (s @ t) acc = Ok (v, r @ t)"
    and IHm: "\<And>s acc v r. parse_members n s acc = Ok (v, r)
                    \<Longrightarrow> parse_members n (s @ t) acc = Ok (v, r @ t)"
    by blast+
  have V: "parse_value (Suc n) (s @ t) = Ok (v, r @ t)"
    if h: "parse_value (Suc n) s = Ok (v, r)" and nn: "r \<noteq> [] \<or> (\<forall>x. v \<noteq> JNum x)" for s v r
  proof (cases s)
    case Nil
    with h show ?thesis by simp
  next
    case (Cons c cs)
    consider (obj) "c = 123" | (arr) "c = 91" | (str) "c = 34"
      | (lit) "c \<noteq> 123" "c \<noteq> 91" "c \<noteq> 34"
      by blast
    then show ?thesis
    proof cases
      case obj
      then obtain d r0 where d: "skip_ws cs = d # r0"
        using h Cons by (auto split: list.splits)
      then have d': "skip_ws (cs @ t) = d # r0 @ t"
        by (simp add: skip_ws_append)
      show ?thesis
      proof (cases "d = 125")
        case True
        then show ?thesis using h Cons obj d d' by simp
      next
        case False
        then have "parse_members n (d # r0) [] = Ok (v, r)"
          using h Cons obj d by simp
        then have "parse_members n ((d # r0) @ t) [] = Ok (v, r @ t)" by (rule IHm)
        then show ?thesis using False Cons obj d' by simp
      qed
    next
      case arr
      then obtain d r0 where d: "skip_ws cs = d # r0"
        using h Cons by (auto split: list.splits)
      then have d': "skip_ws (cs @ t) = d # r0 @ t"
        by (simp add: skip_ws_append)
      show ?thesis
      proof (cases "d = 93")
        case True
        then show ?thesis using h Cons arr d d' by simp
      next
        case False
        then have "parse_elements n (d # r0) [] = Ok (v, r)"
          using h Cons arr d by simp
        then have "parse_elements n ((d # r0) @ t) [] = Ok (v, r @ t)" by (rule IHe)
        then show ?thesis using False Cons arr d' by simp
      qed
    next
      case str
      then obtain w where "parse_chars cs = Some (w, r)" and "v = JStr w"
        using h Cons by (auto split: option.splits)
      then show ?thesis
        using parse_chars_append [of cs w r t] Cons str by simp
    next
      case lit
      show ?thesis
        using h lit nn unfolding Cons by (rule parse_literal_append)
    qed
  qed
  have tail: "skip_ws (r1 @ t) = d # r' @ t" if "skip_ws r1 = d # r'" for r1 d r'
    using that by (simp add: skip_ws_append)
  have inner: "parse_value n (skip_ws (s @ t)) = Ok (v1, r1 @ t)"
    if "parse_value n (skip_ws s) = Ok (v1, r1)" and "skip_ws r1 = d # r'" for s v1 r1 d r'
  proof -
    have "r1 \<noteq> []" using that(2) by (auto simp: skip_ws_def)
    then have "parse_value n (skip_ws s @ t) = Ok (v1, r1 @ t)"
      using that(1) IHv by blast
    moreover have "skip_ws s \<noteq> []"
      using that(1) by (cases n) auto
    ultimately show ?thesis by (simp add: skip_ws_append)
  qed
  have E: "parse_elements (Suc n) (s @ t) acc = Ok (v, r @ t)"
    if h: "parse_elements (Suc n) s acc = Ok (v, r)" for s acc v r
  proof -
    from h obtain v1 r1 where 1: "parse_value n (skip_ws s) = Ok (v1, r1)"
      by (auto split: parse.splits)
    from h 1 obtain d r' where 2: "skip_ws r1 = d # r'"
      by (auto split: list.splits)
    note p1 = inner [OF 1 2] and p2 = tail [OF 2]
    show ?thesis
    proof (cases "d = 44")
      case True
      then have "parse_elements n r' (acc @ [v1]) = Ok (v, r)"
        using h 1 2 by simp
      then have "parse_elements n (r' @ t) (acc @ [v1]) = Ok (v, r @ t)" by (rule IHe)
      then show ?thesis using True p1 p2 by simp
    next
      case False
      then show ?thesis using h 1 2 p1 p2 by (auto split: if_splits)
    qed
  qed
  have M: "parse_members (Suc n) (s @ t) acc = Ok (v, r @ t)"
    if h: "parse_members (Suc n) s acc = Ok (v, r)" for s acc v r
  proof -
    from h obtain s1 where 0: "skip_ws s = 34 # s1"
      by (auto split: list.splits if_splits)
    from h 0 obtain key s2 where k: "parse_chars s1 = Some (key, s2)"
      by (auto split: option.splits)
    from h 0 k obtain s3 where c: "skip_ws s2 = 58 # s3"
      by (auto split: list.splits if_splits)
    from h 0 k c obtain v1 r1 where 1: "parse_value n (skip_ws s3) = Ok (v1, r1)"
      by (auto split: parse.splits)
    from h 0 k c 1 obtain d r' where 2: "skip_ws r1 = d # r'"
      by (auto split: list.splits)
    note p0 = tail [OF 0] and pc = tail [OF c]
    have pk: "parse_chars (s1 @ t) = Some (key, s2 @ t)"
      using k by (rule parse_chars_append)
    note p1 = inner [OF 1 2] and p2 = tail [OF 2]
    show ?thesis
    proof (cases "d = 44")
      case True
      then have "parse_members n r' (object_set16 acc key v1) = Ok (v, r)"
        using h 0 k c 1 2 by simp
      then have "parse_members n (r' @ t) (object_set16 acc key v1) = Ok (v, r @ t)"
        by (rule IHm)
      then show ?thesis using True p0 pk pc p1 p2 by simp
    next
      case False
      then show ?thesis using h 0 k c 1 2 p0 pk pc p1 p2 by (auto split: if_splits)
    qed
  qed
  show ?case using V E M by blast
qed

lemmas parse_value_append = parse_append [THEN conjunct1, rule_format]
lemmas parse_value_fuel = parse_fuel [THEN conjunct1, rule_format]
lemmas parse_value_Suc = parse_mono [THEN conjunct1, rule_format]

lemma parse_value_more_fuel:
  assumes "parse_value n s = Ok x"
  shows "parse_value (n + k) s = Ok x"
proof (induction k)
  case 0
  show ?case using assms by simp
next
  case (Suc k)
  then show ?case using parse_value_Suc [of "n + k" s] by simp
qed

subsection \<open>Arrays start with a bracket, objects with a brace\<close>

lemma parse_elements_JArr: "parse_elements n s acc = Ok (v, r) \<Longrightarrow> \<exists>xs. v = JArr xs"
proof (induction n arbitrary: s acc)
  case 0
  then show ?case by simp
next
  case (Suc n)
  from Suc.prems obtain v1 r1 where 1: "parse_value n (skip_ws s) = Ok (v1, r1)"
    by (auto split: parse.splits)
  from Suc.prems 1 obtain d r' where 2: "skip_ws r1 = d # r'"
    by (auto split: list.splits)
  from Suc.prems 1 2 have "parse_elements n r' (acc @ [v1]) = Ok (v, r) \<or> v = JArr (acc @ [v1])"
    by (auto split: if_splits)
  then show ?case using Suc.IH by blast
qed

lemma parse_members_JObj: "parse_members n s acc = Ok (v, r) \<Longrightarrow> \<exists>obj. v = JObj obj"
proof (induction n arbitrary: s acc)
  case 0
  then show ?case by simp
next
  case (Suc n)
  from Suc.prems obtain s1 where 0: "skip_ws s = 34 # s1"
    by (auto split: list.splits if_splits)
  from Suc.prems 0 obtain key s2 where k: "parse_chars s1 = Some (key, s2)"
    by (auto split: option.splits)
  from Suc.prems 0 k obtain s3 where c: "skip_ws s2 = 58 # s3"
    by (auto split: list.splits if_splits)
  from Suc.prems 0 k c obtain v1 r1 where 1: "parse_value n (skip_ws s3) = Ok (v1, r1)"
    by (auto split: parse.splits)
  from Suc.prems 0 k c 1 obtain d r' where 2: "skip_ws r1 = d # r'"
    by (auto split: list.splits)
  from Suc.prems 0 k c 1 2
  have "parse_members n r' (object_set16 acc key v1) = Ok (v, r)
        \<or> v = JObj (object_set16 acc key v1)"
    by (auto split: if_splits)
  then show ?case using Suc.IH by blast
qed

lemma parse_value_JObj_hd:
  assumes "parse_value n s = Ok (JObj obj, r)"
  shows "take 1 s = [123]"
proof -
  obtain m where n: "n = Suc m" using assms by (cases n) auto
  obtain c cs where s: "s = c # cs" using assms n by (cases s) auto
  have "c = 123"
  proof (rule ccontr)
    assume c: "c \<noteq> 123"
    show False
    proof (cases "c = 91")
      case True
      then show False
        using assms n s parse_elements_JArr [of m _ "[]" "JObj obj" r]
        by (auto split: list.splits if_splits)
    next
      case False
      then show False
        using assms c unfolding n s by (auto split: if_splits option.splits)
    qed
  qed
  then show ?thesis using s by simp
qed

lemma parse_value_JArr_hd:
  assumes "parse_value n s = Ok (JArr xs, r)"
  shows "take 1 s = [91]"
proof -
  obtain m where n: "n = Suc m" using assms by (cases n) auto
  obtain c cs where s: "s = c # cs" using assms n by (cases s) auto
  have "c = 91"
  proof (rule ccontr)
    assume c: "c \<noteq> 91"
    show False
    proof (cases "c = 123")
      case True
      then show False
        using assms n s parse_members_JObj [of m _ "[]" "JArr xs" r]
        by (auto split: list.splits if_splits)
    next
      case False
      then show False
        using assms c unfolding n s by (auto split: if_splits option.splits)
    qed
  qed
  then show ?thesis using s by simp
qed

subsection \<open>trim\<close>

lemma is_space16_BOM: "is_space16 BOM"
  by (simp add: is_space16_def BOM_def)

lemma trim16_BOM: "trim16 (BOM # t) = trim16 t"
  by (simp add: trim16_def is_space16_BOM)

lemma trim16_hd:
  assumes "trim16 t = c # cs"
  shows "\<not> is_space16 c"
proof -
  let ?u = "dropWhile is_space16 t"
  have "?u \<noteq> []"
  proof
    assume e: "?u = []"
    have "trim16 t = []" unfolding trim16_def e by simp
    then show False using assms by simp
  qed
  then obtain d ds where u: "?u = d # ds" by (cases ?u) auto
  then have d: "\<not> is_space16 d" using hd_dropWhile [of is_space16 t] by simp
  have "trim16 t = rev (dropWhile is_space16 (rev ds @ [d]))"
    by (simp add: trim16_def u)
  also have "\<dots> = d # rev (dropWhile is_space16 (rev ds))"
    using d by (simp add: dropWhile_append3)
  finally show ?thesis using assms d by simp
qed

lemma skip_ws_no_space: "\<not> is_space16 c \<Longrightarrow> skip_ws (c # cs) = c # cs"
  using is_json_ws_space16 [of c] by (auto simp: skip_ws_def)

lemma skip_ws_trim16: "skip_ws (trim16 t) = trim16 t"
proof (cases "trim16 t")
  case Nil
  then show ?thesis by (simp add: skip_ws_def)
next
  case (Cons c cs)
  then show ?thesis using trim16_hd [OF Cons] by (simp add: skip_ws_no_space)
qed

subsection \<open>What JSON.parse accepts\<close>

lemma JSON_parse_steps_Ok:
  "JSON_parse_steps s = Ok v \<longleftrightarrow>
     (\<exists>r. parse_value (2 * length s + 2) (skip_ws s) = Ok (v, r) \<and> skip_ws r = [])"
  by (auto simp: JSON_parse_steps_def split: parse.splits)

lemma JSON_parse_Some: "JSON_parse s = Some v \<longleftrightarrow> JSON_parse_steps s = Ok v"
  by (auto simp: JSON_parse_def split: parse.splits)

lemma JSON_parse_None: "JSON_parse s = None \<longleftrightarrow> JSON_parse_steps s = SyntaxError"
  using JSON_parse_steps_total [of s] by (cases "JSON_parse_steps s") (auto simp: JSON_parse_def)

lemma wrap_array:
  assumes "JSON_parse_steps (trim16 t) = Ok (JArr xs)"
  shows "wrap_object (trim16 t) = trim16 t"
proof -
  from assms obtain r where "parse_value (2 * length (trim16 t) + 2) (trim16 t) = Ok (JArr xs, r)"
    by (auto simp: JSON_parse_steps_Ok skip_ws_trim16)
  then have "take 1 (trim16 t) = [91]" by (rule parse_value_JArr_hd)
  then show ?thesis by (simp add: wrap_object_def)
qed

lemma wrap_single_object:
  assumes "JSON_parse_steps (trim16 t) = Ok (JObj obj)"
  shows "wrap_object (trim16 t) = [91] @ trim16 t @ [93]"
    and "JSON_parse_steps ([91] @ trim16 t @ [93]) = Ok (JArr [JObj obj])"
proof -
  let ?raw = "trim16 t"
  let ?n = "2 * length ?raw + 2"
  from assms obtain r where p: "parse_value ?n ?raw = Ok (JObj obj, r)" and r: "skip_ws r = []"
    by (auto simp: JSON_parse_steps_Ok skip_ws_trim16)
  from p have hd: "take 1 ?raw = [123]" by (rule parse_value_JObj_hd)
  then show "wrap_object ?raw = [91] @ ?raw @ [93]" by (simp add: wrap_object_def)
  from hd obtain cs where raw: "?raw = 123 # cs" by (cases ?raw) auto
  have "parse_value ?n (?raw @ [93]) = Ok (JObj obj, r @ [93])"
    using p by (intro parse_value_append) simp_all
  then have "parse_value (?n + 2) (?raw @ [93]) = Ok (JObj obj, r @ [93])"
    by (rule parse_value_more_fuel)
  moreover have "skip_ws (?raw @ [93]) = ?raw @ [93]"
    unfolding raw by (simp add: skip_ws_def is_json_ws_def)
  moreover have "skip_ws (r @ [93]) = [93]"
    using r by (simp add: skip_ws_def is_json_ws_def dropWhile_append)
  moreover have "2 * length ([91] @ ?raw @ [93]) + 2 = Suc (Suc (Suc (Suc ?n)))"
    by simp
  ultimately have "parse_value (2 * length ([91] @ ?raw @ [93]) + 2) (skip_ws ([91] @ ?raw @ [93]))
      = Ok (JArr [JObj obj], [])"
    unfolding raw by (simp add: skip_ws_def is_json_ws_def)
  then show "JSON_parse_steps ([91] @ ?raw @ [93]) = Ok (JArr [JObj obj])"
    unfolding JSON_parse_steps_Ok by (simp add: skip_ws_def)
qed

subsection \<open>The repair of trailing commas\<close>

lemma trailing_comma_at_Cons:
  "trailing_comma_at (c # cs) \<longleftrightarrow>
     c = 44 \<and> (\<exists>d r. dropWhile is_space16 cs = d # r \<and> (d = 125 \<or> d = 93))"
  by (cases "dropWhile is_space16 cs")
    (simp_all add: trailing_comma_at_def del: dropWhile_eq_Nil_conv)

lemma remove_trailing_commas_keep:
  assumes "\<not> trailing_comma_at (c # cs)"
  shows "remove_trailing_commas (c # cs) = c # remove_trailing_commas cs"
proof (cases "dropWhile is_space16 cs")
  case Nil
  then show ?thesis by (simp del: dropWhile_eq_Nil_conv)
next
  case (Cons d r)
  then show ?thesis
    using assms by (auto simp: trailing_comma_at_Cons simp del: dropWhile_eq_Nil_conv)
qed

lemma remove_trailing_commas_drop:
  assumes "trailing_comma_at (c # cs)"
  shows "remove_trailing_commas (c # cs) = remove_trailing_commas (dropWhile is_space16 cs)"
proof -
  from assms obtain d r where d: "dropWhile is_space16 cs = d # r" "d = 125 \<or> d = 93" and c: "c = 44"
    by (auto simp: trailing_comma_at_Cons)
  then have "\<not> trailing_comma_at (d # r)" by (auto simp: trailing_comma_at_Cons)
  then have "remove_trailing_commas (d # r) = d # remove_trailing_commas r"
    by (rule remove_trailing_commas_keep)
  then show ?thesis using d c by (simp del: dropWhile_eq_Nil_conv)
qed

declare remove_trailing_commas.simps(2) [simp del]

lemma strings_clean_dropWhile:
  "strings_clean False cs \<Longrightarrow> strings_clean False (dropWhile is_space16 cs)"
  by (induction cs) (auto simp: is_space16_def)

lemma drop_trailing_commas_code:
  "strings_clean b s \<Longrightarrow> drop_trailing_commas b s = remove_trailing_commas s"
proof (induction b s rule: drop_trailing_commas.induct)
  case (1 in_string)
  show ?case by simp
next
  case (2 c cs)
  show ?case
  proof (cases "c = 34")
    case True
    then show ?thesis
      using 2 by (simp add: remove_trailing_commas_keep trailing_comma_at_Cons)
  next
    case False
    show ?thesis
    proof (cases "c = 92")
      case c: True
      show ?thesis
      proof (cases cs)
        case Nil
        then show ?thesis
          using c remove_trailing_commas_keep [of c "[]"] by (simp add: trailing_comma_at_Cons)
      next
        case (Cons e r)
        then have "\<not> trailing_comma_at (e # r)" and "strings_clean True r"
          using "2.prems" c by simp_all
        then show ?thesis
          using "2.IH"(2) c Cons
            remove_trailing_commas_keep [of c cs] remove_trailing_commas_keep [of e r]
          by (simp add: trailing_comma_at_Cons)
      qed
    next
      case c: False
      then have "\<not> trailing_comma_at (c # cs)" and "strings_clean True cs"
        using "2.prems" False by simp_all
      then show ?thesis
        using "2.IH"(3) False c by (simp add: remove_trailing_commas_keep)
    qed
  qed
next
  case (3 c cs)
  show ?case
  proof (cases "c = 34")
    case True
    then show ?thesis
      using 3 by (simp add: remove_trailing_commas_keep trailing_comma_at_Cons)
  next
    case False
    then have cl: "strings_clean False cs" using "3.prems" by simp
    show ?thesis
    proof (cases "trailing_comma_at (c # cs)")
      case True
      have "strings_clean False (dropWhile is_space16 cs)"
        using cl by (rule strings_clean_dropWhile)
      then show ?thesis
        using "3.IH"(2) False True by (simp add: remove_trailing_commas_drop)
    next
      case t: False
      then show ?thesis
        using "3.IH"(3) False cl by (simp add: remove_trailing_commas_keep)
    qed
  qed
qed

lemma remove_trailing_commas_hd:
  "remove_trailing_commas (c # cs) = x # xs \<Longrightarrow> x = c \<or> x = 125 \<or> x = 93"
  by (auto simp: remove_trailing_commas.simps(2) split: if_splits list.splits)

lemma prepared_hd:
  assumes "prepared content = c # cs"
  shows "\<not> is_space16 c"
proof (cases "trim16 content")
  case Nil
  then show ?thesis using assms by (simp add: wrap_object_def)
next
  case (Cons d ds)
  then have "\<not> is_space16 d" by (rule trim16_hd)
  moreover have "c = d \<or> c = 91"
    using assms Cons by (auto simp: wrap_object_def split: if_splits)
  ultimately show ?thesis by (auto simp: is_space16_def)
qed

lemma strip_BOM_prepared:
  "strip_BOM (remove_trailing_commas (prepared content))
     = remove_trailing_commas (prepared content)"
proof (cases "prepared content")
  case Nil
  then show ?thesis by (simp add: strip_BOM_def)
next
  case (Cons c cs)
  then have c: "\<not> is_space16 c" by (rule prepared_hd)
  show ?thesis
  proof (cases "remove_trailing_commas (c # cs)")
    case Nil
    then show ?thesis unfolding Cons by (simp add: strip_BOM_def)
  next
    case r: (Cons x xs)
    then have "x = c \<or> x = 125 \<or> x = 93" by (rule remove_trailing_commas_hd)
    then have "x \<noteq> BOM" using c is_space16_BOM by (auto simp: BOM_def)
    then show ?thesis unfolding Cons r by (simp add: strip_BOM_def)
  qed
qed

subsection \<open>parseEventsJson\<close>

lemma parseEventsJson_first:
  "JSON_parse_steps (prepared content) = Ok v \<Longrightarrow> parseEventsJson (Some content) = array_root v"
  by (simp add: parseEventsJson_def JSON_parse_def)

lemma parseEventsJson_second:
  assumes "JSON_parse_steps (prepared content) = SyntaxError"
  shows "parseEventsJson (Some content) =
     (case JSON_parse_steps (remove_trailing_commas (prepared content)) of
        Ok v \<Rightarrow> array_root v
      | _ \<Rightarrow> Inl ParseFailed)"
  using assms JSON_parse_steps_total [of "remove_trailing_commas (prepared content)"]
  by (simp add: parseEventsJson_def JSON_parse_def strip_BOM_prepared split: parse.splits)

text \<open>
  Claim C8, as amended. A byte-order mark before the text never changes the result.
  The records are returned when the trimmed text is valid JSON for an array, and a
  trimmed text that is valid JSON for a single object gives the array that holds this
  object alone. When the prepared text (trimmed, and wrapped if it starts with a brace)
  is rejected, and no comma inside a string literal is followed by a closing bracket or
  brace, the text with its trailing commas dropped is parsed instead: its records are
  returned when it is valid JSON for an array, and the parse failure is raised exactly
  when it is rejected too. The other fatal errors are raised for valid JSON whose root
  is not an array, and when there is no file.
\<close>

theorem parseEventsJson_near_valid:
  "parseEventsJson (Some (BOM # content)) = parseEventsJson (Some content)
   \<and> (JSON_parse_steps (trim16 content) = Ok (JArr records)
        \<longrightarrow> parseEventsJson (Some content) = Inr records)
   \<and> (JSON_parse_steps (trim16 content) = Ok (JObj obj)
        \<longrightarrow> parseEventsJson (Some content) = Inr [JObj obj])
   \<and> (JSON_parse_steps (prepared content) = SyntaxError
        \<and> strings_clean False (prepared content)
        \<and> JSON_parse_steps (drop_trailing_commas False (prepared content)) = Ok (JArr records)
        \<longrightarrow> parseEventsJson (Some content) = Inr records)
   \<and> (JSON_parse_steps (prepared content) = SyntaxError
        \<and> strings_clean False (prepared content)
        \<longrightarrow> (parseEventsJson (Some content) = Inl ParseFailed)
             = (JSON_parse_steps (drop_trailing_commas False (prepared content)) = SyntaxError))
   \<and> (JSON_parse_steps (prepared content) = Ok v \<and> (\<forall>rs. v \<noteq> JArr rs)
        \<longrightarrow> parseEventsJson (Some content) = Inl RootNotArray)
   \<and> parseEventsJson None = Inl FileNotFound"
proof (intro conjI impI)
  show "parseEventsJson (Some (BOM # content)) = parseEventsJson (Some content)"
    by (simp add: parseEventsJson_def trim16_BOM)
next
  assume a: "JSON_parse_steps (trim16 content) = Ok (JArr records)"
  then have "prepared content = trim16 content" by (rule wrap_array)
  then show "parseEventsJson (Some content) = Inr records"
    using a parseEventsJson_first [of content "JArr records"] by (simp add: array_root_def)
next
  assume a: "JSON_parse_steps (trim16 content) = Ok (JObj obj)"
  then have "JSON_parse_steps (prepared content) = Ok (JArr [JObj obj])"
    using wrap_single_object [of content obj] by simp
  then show "parseEventsJson (Some content) = Inr [JObj obj]"
    using parseEventsJson_first [of content "JArr [JObj obj]"] by (simp add: array_root_def)
next
  assume a: "JSON_parse_steps (prepared content) = SyntaxError
    \<and> strings_clean False (prepared content)
    \<and> JSON_parse_steps (drop_trailing_commas False (prepared content)) = Ok (JArr records)"
  then show "parseEventsJson (Some content) = Inr records"
    using parseEventsJson_second [of content]
      drop_trailing_commas_code [of False "prepared content"]
    by (simp add: array_root_def)
next
  assume a: "JSON_parse_steps (prepared content) = SyntaxError
    \<and> strings_clean False (prepared content)"
  let ?t = "drop_trailing_commas False (prepared content)"
  have e: "remove_trailing_commas (prepared content) = ?t"
    using a drop_trailing_commas_code [of False "prepared content"] by simp
  show "(parseEventsJson (Some content) = Inl ParseFailed) = (JSON_parse_steps ?t = SyntaxError)"
  proof (cases "JSON_parse_steps ?t")
    case (Ok w)
    then show ?thesis
      using a e parseEventsJson_second [of content]
      by (simp add: array_root_def split: json.splits)
  next
    case SyntaxError
    then show ?thesis
      using a e parseEventsJson_second [of content] by simp
  next
    case OutOfFuel
    then show ?thesis using JSON_parse_steps_total [of ?t] by simp
  qed
next
  assume a: "JSON_parse_steps (prepared content) = Ok v \<and> (\<forall>rs. v \<noteq> JArr rs)"
  then show "parseEventsJson (Some content) = Inl RootNotArray"
    using parseEventsJson_first [of content v] by (simp add: array_root_def split: json.splits)
next
  show "parseEventsJson None = Inl FileNotFound"
    by (simp add: parseEventsJson_def)
qed

text \<open>
  The cases at the example catalogs: an array behind a byte-order mark, a single
  object, an array with trailing commas, and \<^verbatim>\<open>null\<close>.
\<close>

theorem parseEventsJson_near_valid_witness:
  "JSON_parse_steps (trim16 bom_catalog) = Ok (JArr [run_record])
   \<and> parseEventsJson (Some bom_catalog) = Inr [run_record]
   \<and> JSON_parse_steps (trim16 object_catalog) = Ok run_record
   \<and> parseEventsJson (Some object_catalog) = Inr [run_record]
   \<and> JSON_parse_steps (prepared comma_catalog) = SyntaxError
   \<and> strings_clean False (prepared comma_catalog)
   \<and> JSON_parse_steps (drop_trailing_commas False (prepared comma_catalog)) = Ok (JArr [run_record])
   \<and> parseEventsJson (Some comma_catalog) = Inr [run_record]
   \<and> parseEventsJson (Some comma_catalog) \<noteq> Inl ParseFailed
   \<and> JSON_parse_steps (prepared null_catalog) = Ok JNull
   \<and> parseEventsJson (Some null_catalog) = Inl RootNotArray"
proof -
  have b: "JSON_parse_steps (trim16 bom_catalog) = Ok (JArr [run_record])"
    by code_simp
  have o: "JSON_parse_steps (trim16 object_catalog) = Ok (JObj [(text_of ''name'', JStr (text_of ''Dhaka Run''))])"
    by code_simp
  have c: "JSON_parse_steps (prepared comma_catalog) = SyntaxError"
    "strings_clean False (prepared comma_catalog)"
    "JSON_parse_steps (drop_trailing_commas False (prepared comma_catalog)) = Ok (JArr [run_record])"
    by code_simp+
  have n: "JSON_parse_steps (prepared null_catalog) = Ok JNull"
    by code_simp
  note t = parseEventsJson_near_valid
  show ?thesis
    using b o c n
      t [of bom_catalog "[run_record]"]
      t [of object_catalog _ "[(text_of ''name'', JStr (text_of ''Dhaka Run''))]"]
      t [of comma_catalog "[run_record]"]
      t [of null_catalog _ _ JNull]
    by (simp add: run_record_def)
qed

text \<open>
  Claim C8 as stated fails in two ways. The text \<^verbatim>\<open>null\<close> is parsed at once, with no
  repair, and a fatal error is raised all the same, since the root is not an array. In
  \<open>string_comma_catalog\<close> the only trailing comma is the last one, and without it the
  record has the name \<^verbatim>\<open>a,]\<close>; the record returned has the name \<^verbatim>\<open>a]\<close>, since the
  comma inside the string literal is removed as well.
\<close>

theorem parseEventsJson_near_valid_counterexample:
  "JSON_parse_steps (trim16 null_catalog) = Ok JNull
   \<and> parseEventsJson (Some null_catalog) = Inl RootNotArray
   \<and> JSON_parse_steps (drop_trailing_commas False string_comma_catalog)
       = Ok (JArr [JObj [(text_of ''name'', JStr (text_of ''a,]''))]])
   \<and> parseEventsJson (Some string_comma_catalog)
       = Inr [JObj [(text_of ''name'', JStr (text_of ''a]''))]]"
  by code_simp


end
